theory Spec2Isabelle
  imports Complex_Main "HOL-Library.Word"
begin

section \<open>JavaScript strings\<close>

text \<open>
  A JavaScript string is a sequence of UTF-16 code units. ASCII literals of the script are
  written \<open>js ''...''\<close>.
\<close>

type_synonym code_unit = "16 word"
type_synonym jsstring = "code_unit list"

definition js :: "string \<Rightarrow> jsstring" where
  "js s = map (\<lambda>c. of_char c) s"

definition AT :: code_unit where
  "AT = 0x40"

definition DOT :: code_unit where
  "DOT = 0x2E"

text \<open>
  The class \<open>\s\<close> of a regular expression and the characters stripped by
  \<open>String.prototype.trim\<close> are the same set: WhiteSpace and LineTerminator of ECMAScript.
\<close>

definition is_space :: "code_unit \<Rightarrow> bool" where
  "is_space c \<longleftrightarrow>
     c = 0x09 \<or> c = 0x0A \<or> c = 0x0B \<or> c = 0x0C \<or> c = 0x0D \<or> c = 0x20 \<or>
     c = 0xA0 \<or> c = 0x1680 \<or> (0x2000 \<le> c \<and> c \<le> 0x200A) \<or>
     c = 0x2028 \<or> c = 0x2029 \<or> c = 0x202F \<or> c = 0x205F \<or> c = 0x3000 \<or>
     c = 0xFEFF"

definition trim :: "jsstring \<Rightarrow> jsstring" where
  "trim s = rev (dropWhile is_space (rev (dropWhile is_space s)))"

text \<open>
  A value read through \<open>?.\<close> is a string or \<open>undefined\<close> (\<open>None\<close>).
  \<open>falsy\<close> is the operator \<open>!\<close> on such a value, \<open>ToString\<close> the conversion
  that \<open>RegExp.prototype.test\<close> applies to its argument.
\<close>

definition falsy :: "jsstring option \<Rightarrow> bool" where
  "falsy v = (case v of None \<Rightarrow> True | Some s \<Rightarrow> s = [])"

definition ToString :: "jsstring option \<Rightarrow> jsstring" where
  "ToString v = (case v of None \<Rightarrow> js ''undefined'' | Some s \<Rightarrow> s)"


section \<open>Regular expressions\<close>

text \<open>
  The fragment of regular expressions the script uses: a character class, concatenation
  and the greedy quantifier \<open>+\<close>. \<open>rests r s\<close> lists, in the order a backtracking
  matcher tries them, the remainders of \<open>s\<close> after a match of \<open>r\<close> at its start:
  \<open>+\<close> is greedy, so after one iteration the longer matches come before the match
  that stops there. An iteration that consumes nothing is not repeated.
\<close>

datatype regex =
    Class "code_unit \<Rightarrow> bool"
  | Seq regex regex
  | Plus regex

function (sequential) rests :: "regex \<Rightarrow> jsstring \<Rightarrow> jsstring list" where
  "rests (Class p) [] = []"
| "rests (Class p) (c # cs) = (if p c then [cs] else [])"
| "rests (Seq a b) s = concat (map (rests b) (rests a s))"
| "rests (Plus a) s =
     concat (map (\<lambda>t. (if length t < length s then rests (Plus a) t else []) @ [t])
               (rests a s))"
  by pat_completeness auto
termination
  by (relation "measures [\<lambda>(r, s). size r, \<lambda>(r, s). length s]") auto

declare rests.simps(4) [simp del]

text \<open>\<open>/^r$/.test(s)\<close> without the multiline flag: \<open>r\<close> matches the whole of \<open>s\<close>.\<close>

definition test_anchored :: "regex \<Rightarrow> jsstring \<Rightarrow> bool" where
  "test_anchored r s \<longleftrightarrow> [] \<in> set (rests r s)"

text \<open>The class \<open>[^\s@]\<close>.\<close>

definition not_space_at :: "code_unit \<Rightarrow> bool" where
  "not_space_at c \<longleftrightarrow> \<not> (is_space c \<or> c = AT)"

text \<open>The body of \<open>/^[^\s@]+@[^\s@]+\.[^\s@]+$/\<close>.\<close>

definition email_regex :: regex where
  "email_regex =
     Seq (Plus (Class not_space_at))
       (Seq (Class (\<lambda>c. c = AT))
         (Seq (Plus (Class not_space_at))
           (Seq (Class (\<lambda>c. c = DOT))
             (Plus (Class not_space_at)))))"

definition isValidEmail :: "jsstring \<Rightarrow> bool" where
  "isValidEmail email \<longleftrightarrow> test_anchored email_regex email"

text \<open>
  The shape as the specification words it: a non-empty local part before a single
  \<open>@\<close>, no whitespace, a non-empty domain part before a dot, and at least one character
  after the final dot.
\<close>

definition email_shape_spec :: "jsstring \<Rightarrow> bool" where
  "email_shape_spec s \<longleftrightarrow>
     (let local = takeWhile (\<lambda>c. c \<noteq> AT) s;
          rest = drop (length local + 1) s;
          tld = rev (takeWhile (\<lambda>c. c \<noteq> DOT) (rev rest));
          domain = take (length rest - length tld - 1) rest
      in AT \<in> set s \<and> AT \<notin> set rest \<and> DOT \<in> set rest \<and>
         (\<forall>c \<in> set s. \<not> is_space c) \<and> local \<noteq> [] \<and> domain \<noteq> [] \<and> tld \<noteq> [])"


section \<open>Contact form\<close>

text \<open>
  A form is the list of its controls in document order, each with its \<open>name\<close> attribute
  and its current value. The page holds the two elements the script looks up
  (\<open>None\<close> when the page has no such element) and the calls made so far.
\<close>

type_synonym control = "jsstring \<times> jsstring"

record msg_el =
  textContent :: jsstring
  color :: jsstring

datatype call =
    PreventDefault
  | ShowFormMessage jsstring jsstring
  | IsValidEmail jsstring
  | Reset

record contact_page =
  form :: "control list option"
  formMsg :: "msg_el option"
  calls :: "call list"

definition log_call :: "call \<Rightarrow> contact_page \<Rightarrow> contact_page" where
  "log_call c p = p\<lparr>calls := calls p @ [c]\<rparr>"

text \<open>\<open>form.querySelector('[name="n"]')?.value.trim()\<close>\<close>

definition field_value :: "control list \<Rightarrow> jsstring \<Rightarrow> jsstring option" where
  "field_value f n = map_option trim (map_of f n)"

definition showFormMessage :: "jsstring \<Rightarrow> jsstring \<Rightarrow> contact_page \<Rightarrow> contact_page" where
  "showFormMessage text col p =
     (let p = log_call (ShowFormMessage text col) p
      in case formMsg p of
           None \<Rightarrow> p
         | Some m \<Rightarrow> p\<lparr>formMsg := Some (m\<lparr>textContent := text, color := col\<rparr>)\<rparr>)"

text \<open>
  Modelled from the spec: the markup of the form is not part of the sources, and
  the specification says that a successful submission clears all form fields, so no
  control declares an initial value and \<open>form.reset()\<close> leaves every control empty.
\<close>

definition form_reset :: "contact_page \<Rightarrow> contact_page" where
  "form_reset p =
     (let p = log_call Reset p
      in p\<lparr>form := map_option (map (\<lambda>(n, v). (n, []))) (form p)\<rparr>)"

text \<open>The listener of the \<open>submit\<close> event; \<open>f\<close> is the form as it is when the event fires.\<close>

definition submit_handler :: "control list \<Rightarrow> contact_page \<Rightarrow> contact_page" where
  "submit_handler f p =
     (let p = log_call PreventDefault p;
          name = field_value f (js ''name'');
          email = field_value f (js ''email'');
          message = field_value f (js ''message'')
      in if falsy name \<or> falsy email \<or> falsy message
         then showFormMessage (js ''Please fill all fields!'') (js ''red'') p
         else
           let p = log_call (IsValidEmail (ToString email)) p
           in if \<not> isValidEmail (ToString email)
              then showFormMessage (js ''Please enter a valid email address!'') (js ''red'') p
              else form_reset (showFormMessage (js ''Message sent successfully!'') (js ''green'') p))"

text \<open>The listener is registered only under \<open>if (form && formMsg)\<close>.\<close>

definition submit_event :: "contact_page \<Rightarrow> contact_page" where
  "submit_event p =
     (case (form p, formMsg p) of
        (Some f, Some m) \<Rightarrow> submit_handler f p
      | _ \<Rightarrow> p)"


section \<open>Class lists\<close>

text \<open>
  \<open>classList\<close> is an ordered set of tokens: \<open>add\<close> appends a token that is not there,
  \<open>toggle\<close> removes a token that is there (and returns \<open>false\<close>) or appends it (and
  returns \<open>true\<close>).
\<close>

definition classList_contains :: "jsstring list \<Rightarrow> jsstring \<Rightarrow> bool" where
  "classList_contains cl c \<longleftrightarrow> c \<in> set cl"

definition classList_add :: "jsstring list \<Rightarrow> jsstring \<Rightarrow> jsstring list" where
  "classList_add cl c = (if c \<in> set cl then cl else cl @ [c])"

definition classList_toggle :: "jsstring list \<Rightarrow> jsstring \<Rightarrow> jsstring list \<times> bool" where
  "classList_toggle cl c = (if c \<in> set cl then (removeAll c cl, False) else (cl @ [c], True))"


section \<open>Theme switch\<close>

text \<open>
  The two icon literals of the script, code unit by code unit as the source file holds
  them: the first is shown while the dark theme is on (it offers the light mode), the
  second while it is off.
\<close>

definition light_mode_glyph :: jsstring where
  "light_mode_glyph = [0xE2, 0x2DC, 0x20AC, 0xEF, 0xB8]"

definition dark_mode_glyph :: jsstring where
  "dark_mode_glyph = [0xF0, 0x178, 0x152, 0x2122]"

record toggle_el =
  toggle_textContent :: jsstring
  aria_pressed :: "jsstring option"

record theme_page =
  themeToggle :: "toggle_el option"
  body_classList :: "jsstring list"
  localStorage :: "jsstring \<rightharpoonup> jsstring"

text \<open>\<open>setAttribute\<close> with a boolean stores its string.\<close>

definition bool_string :: "bool \<Rightarrow> jsstring" where
  "bool_string b = (if b then js ''true'' else js ''false'')"

text \<open>The block run at load, under \<open>if (themeToggle)\<close>.\<close>

definition theme_load :: "theme_page \<Rightarrow> theme_page" where
  "theme_load p =
     (case themeToggle p of
        None \<Rightarrow> p
      | Some t \<Rightarrow>
          let savedTheme = localStorage p (js ''theme'')
          in if savedTheme = Some (js ''dark'')
             then p\<lparr>body_classList := classList_add (body_classList p) (js ''dark''),
                    themeToggle := Some (t\<lparr>toggle_textContent := light_mode_glyph,
                                            aria_pressed := Some (js ''true'')\<rparr>)\<rparr>
             else p\<lparr>themeToggle := Some (t\<lparr>aria_pressed := Some (js ''false'')\<rparr>)\<rparr>)"

text \<open>The listener of the toggle's \<open>click\<close> event.\<close>

definition theme_click_handler :: "toggle_el \<Rightarrow> theme_page \<Rightarrow> theme_page" where
  "theme_click_handler t p =
     (let (cl, isDark) = classList_toggle (body_classList p) (js ''dark'')
      in p\<lparr>body_classList := cl,
            themeToggle := Some (t\<lparr>toggle_textContent :=
                                      (if isDark then light_mode_glyph else dark_mode_glyph),
                                    aria_pressed := Some (bool_string isDark)\<rparr>),
            localStorage := (localStorage p)(js ''theme'' \<mapsto>
                              (if isDark then js ''dark'' else js ''light''))\<rparr>)"

definition theme_click :: "theme_page \<Rightarrow> theme_page" where
  "theme_click p =
     (case themeToggle p of
        None \<Rightarrow> p
      | Some t \<Rightarrow> theme_click_handler t p)"


section \<open>Scroll reveal\<close>

text \<open>
  Elements are named by numbers. An intersection observer keeps the list of the elements
  it watches and hands its callback a batch of entries.
\<close>

type_synonym elem = nat

record entry =
  target :: elem
  isIntersecting :: bool

record reveal_page =
  classList :: "elem \<Rightarrow> jsstring list"
  observed :: "elem list"

definition observe :: "elem \<Rightarrow> elem list \<Rightarrow> elem list" where
  "observe el obs = (if el \<in> set obs then obs else obs @ [el])"

definition unobserve :: "elem \<Rightarrow> elem list \<Rightarrow> elem list" where
  "unobserve el obs = removeAll el obs"

definition reveal_entry :: "entry \<Rightarrow> reveal_page \<Rightarrow> reveal_page" where
  "reveal_entry e p =
     (if isIntersecting e
      then p\<lparr>classList := (classList p)(target e :=
                               classList_add (classList p (target e)) (js ''active'')),
             observed := unobserve (target e) (observed p)\<rparr>
      else p)"

definition reveal_callback :: "entry list \<Rightarrow> reveal_page \<Rightarrow> reveal_page" where
  "reveal_callback entries p = fold reveal_entry entries p"

text \<open>
  The block run at load: \<open>revealElements\<close> is the list the selector returns,
  \<open>supported\<close> says whether the window has \<open>IntersectionObserver\<close>.
\<close>

definition reveal_load :: "elem list \<Rightarrow> bool \<Rightarrow> reveal_page \<Rightarrow> reveal_page" where
  "reveal_load revealElements supported p =
     (if length revealElements > 0
      then if supported
           then fold (\<lambda>el p. p\<lparr>observed := observe el (observed p)\<rparr>) revealElements p
           else fold (\<lambda>el p. p\<lparr>classList := (classList p)(el :=
                                   classList_add (classList p el) (js ''active''))\<rparr>)
                  revealElements p
      else p)"

definition is_active :: "reveal_page \<Rightarrow> elem \<Rightarrow> bool" where
  "is_active p el \<longleftrightarrow> classList_contains (classList p el) (js ''active'')"

text \<open>The pages after each notification of a sequence.\<close>

fun reveal_states :: "reveal_page \<Rightarrow> entry list list \<Rightarrow> reveal_page list" where
  "reveal_states p [] = []"
| "reveal_states p (b # bs) = reveal_callback b p # reveal_states (reveal_callback b p) bs"

text \<open>
  How often an element goes from inactive to active, and from active to inactive, along
  a list of successive pages.
\<close>

fun activations :: "elem \<Rightarrow> reveal_page list \<Rightarrow> nat" where
  "activations el (p # q # ps) =
     (if \<not> is_active p el \<and> is_active q el then 1 else 0) + activations el (q # ps)"
| "activations el ps = 0"

fun deactivations :: "elem \<Rightarrow> reveal_page list \<Rightarrow> nat" where
  "deactivations el (p # q # ps) =
     (if is_active p el \<and> \<not> is_active q el then 1 else 0) + deactivations el (q # ps)"
| "deactivations el ps = 0"


section \<open>Back-to-top control\<close>

text \<open>The scroll offset is a number of pixels, possibly fractional.\<close>

record button_el =
  display :: jsstring

record scroll_page =
  backToTopBtn :: "button_el option"
  scrollY :: real

definition scroll_handler :: "button_el \<Rightarrow> scroll_page \<Rightarrow> scroll_page" where
  "scroll_handler b p =
     p\<lparr>backToTopBtn := Some (b\<lparr>display := (if scrollY p > 300 then js ''block'' else js ''none'')\<rparr>)\<rparr>"

text \<open>
  A scroll event: the window is at offset \<open>y\<close> and the listener, registered under
  \<open>if (backToTopBtn)\<close>, runs.
\<close>

definition scroll_event :: "real \<Rightarrow> scroll_page \<Rightarrow> scroll_page" where
  "scroll_event y p =
     (let p = p\<lparr>scrollY := y\<rparr>
      in case backToTopBtn p of
           None \<Rightarrow> p
         | Some b \<Rightarrow> scroll_handler b p)"


section \<open>Numbers\<close>

text \<open>
  A JavaScript number is an IEEE double. A finite double that is not negative is kept as
  a pair \<open>(m, e)\<close> that stands for \<open>m\<close> times \<open>2\<close> to the \<open>e\<close>, and an integer
  \<open>n\<close> as \<open>(n, 0)\<close>. The product of two doubles is their exact product rounded to 53
  significant bits, to the nearest and to the even one of two nearest. The literal
  \<open>0.1\<close> is the double nearest to one tenth. Overflow and subnormal results are left
  out: an index of an array is below \<open>2\<close> to the 32, and its product with \<open>0.1\<close> is
  zero or a normal number.
\<close>

type_synonym double = "int \<times> int"

function bit_length :: "int \<Rightarrow> nat" where
  "bit_length n = (if n \<le> 0 then 0 else Suc (bit_length (n div 2)))"
  by pat_completeness auto
termination
  by (relation "measure nat") auto

declare bit_length.simps [simp del]

definition round_shift :: "int \<Rightarrow> nat \<Rightarrow> int" where
  "round_shift m s =
     (let q = m div 2 ^ s; r = m mod 2 ^ s
      in if 2 * r > 2 ^ s \<or> (2 * r = 2 ^ s \<and> odd q) then q + 1 else q)"

definition to_double :: "int \<Rightarrow> int \<Rightarrow> double" where
  "to_double m e = (let s = bit_length m - 53 in (round_shift m s, e + int s))"

definition times_double :: "double \<Rightarrow> double \<Rightarrow> double" where
  "times_double x y = (case (x, y) of ((m1, e1), (m2, e2)) \<Rightarrow> to_double (m1 * m2) (e1 + e2))"

definition one_tenth :: double where
  "one_tenth = (3602879701896397, - 55)"

definition double_value :: "double \<Rightarrow> real" where
  "double_value d = (case d of (m, e) \<Rightarrow> real_of_int m * 2 powi e)"


section \<open>Word by word text reveal\<close>

text \<open>
  \<open>s.split(r)\<close> for a regular expression \<open>r\<close>: at each position the expression is
  tried; its first match closes the current piece and the scan goes on behind it,
  otherwise the character joins the piece. No expression of the fragment matches the
  empty string (\<open>rests_shorter\<close> below), so a match always consumes something. The
  empty string gives no piece when \<open>r\<close> matches it and itself otherwise.
\<close>

function split_from :: "regex \<Rightarrow> jsstring \<Rightarrow> jsstring \<Rightarrow> jsstring list" where
  "split_from r piece [] = [rev piece]"
| "split_from r piece (c # cs) =
     (case rests r (c # cs) of
        [] \<Rightarrow> split_from r (c # piece) cs
      | t # ts \<Rightarrow>
          if length t < length (c # cs)
          then rev piece # split_from r [] t
          else split_from r (c # piece) cs)"
  by pat_completeness auto
termination
  by (relation "measure (\<lambda>(r, piece, s). length s)") auto

declare split_from.simps(2) [simp del]

definition split :: "regex \<Rightarrow> jsstring \<Rightarrow> jsstring list" where
  "split r s = (if s = [] then (if test_anchored r [] then [] else [s]) else split_from r [] s)"

text \<open>The expression \<open>/\s+/\<close>.\<close>

definition spaces_regex :: regex where
  "spaces_regex = Plus (Class is_space)"

text \<open>
  The element is the list of its child nodes; its \<open>textContent\<close> is the text of all of
  them, and assigning the empty string to it removes them all. The delay of a span is
  the number \<open>index * 0.1\<close>, a product of doubles; the template string writes a decimal
  numeral that reads back as exactly this number, followed by \<open>s\<close>, and the span keeps
  the value of the number.
\<close>

record span_el =
  className :: jsstring
  span_textContent :: jsstring
  marginRight :: jsstring
  animationDelay :: real

datatype node = TextNode jsstring | SpanNode span_el

fun node_text :: "node \<Rightarrow> jsstring" where
  "node_text (TextNode s) = s"
| "node_text (SpanNode sp) = span_textContent sp"

definition el_textContent :: "node list \<Rightarrow> jsstring" where
  "el_textContent children = concat (map node_text children)"

definition word_span :: "nat \<Rightarrow> jsstring \<Rightarrow> span_el" where
  "word_span index word =
     \<lparr>className = js ''word'', span_textContent = word, marginRight = js ''0.4rem'',
      animationDelay = double_value (times_double (int index, 0) one_tenth)\<rparr>"

definition animate_words :: "node list \<Rightarrow> node list" where
  "animate_words el =
     (let words = split spaces_regex (trim (el_textContent el));
          el = []
      in fold (\<lambda>(index, word) el. el @ [SpanNode (word_span index word)])
           (List.enumerate 0 words) el)"

text \<open>
  The words of a text as the specification means them: the maximal runs of characters
  that are not whitespace, in order.
\<close>

fun words_from :: "jsstring \<Rightarrow> jsstring \<Rightarrow> jsstring list" where
  "words_from cur [] = (if cur = [] then [] else [rev cur])"
| "words_from cur (c # cs) =
     (if is_space c
      then (if cur = [] then words_from [] cs else rev cur # words_from [] cs)
      else words_from (c # cur) cs)"

definition words_spec :: "jsstring \<Rightarrow> jsstring list" where
  "words_spec text = words_from [] text"


section \<open>Skill bars\<close>

text \<open>
  For each skill item the page gives the element that \<open>querySelector('.bar span')\<close>
  finds in it, if any. A timer set by the callback is kept with its delay in
  milliseconds, the item to mark active and the value read from \<open>data-skill\<close>.
\<close>

datatype error = TypeError

record bar_el =
  dataset_skill :: "jsstring option"

record skills_page =
  skill_bar :: "elem \<Rightarrow> bar_el option"
  skill_observed :: "elem list"
  timers :: "(nat \<times> elem \<times> jsstring option) list"

definition skill_entry :: "nat \<Rightarrow> entry \<Rightarrow> skills_page \<Rightarrow> error + skills_page" where
  "skill_entry index e p =
     (if \<not> isIntersecting e then Inr p
      else
        let skill = target e
        in case skill_bar p skill of
             None \<Rightarrow> Inl TypeError
           | Some bar \<Rightarrow>
               Inr (p\<lparr>timers := timers p @ [(index * 180, skill, dataset_skill bar)],
                      skill_observed := unobserve skill (skill_observed p)\<rparr>))"

text \<open>\<open>entries.forEach((entry, index) => ...)\<close>: an exception ends the loop.\<close>

fun skill_forEach :: "nat \<Rightarrow> entry list \<Rightarrow> skills_page \<Rightarrow> error + skills_page" where
  "skill_forEach index [] p = Inr p"
| "skill_forEach index (e # es) p =
     (case skill_entry index e p of
        Inl err \<Rightarrow> Inl err
      | Inr p' \<Rightarrow> skill_forEach (Suc index) es p')"

definition skill_callback :: "entry list \<Rightarrow> skills_page \<Rightarrow> error + skills_page" where
  "skill_callback entries p = skill_forEach 0 entries p"


section \<open>Sample pages\<close>

definition page_blank_message :: contact_page where
  "page_blank_message =
     \<lparr>form = Some [(js ''name'', js ''Jo''), (js ''email'', js ''jo@example.com''),
                   (js ''message'', js ''   '')],
      formMsg = Some \<lparr>textContent = [], color = []\<rparr>,
      calls = []\<rparr>"

definition page_invalid_email :: contact_page where
  "page_invalid_email =
     \<lparr>form = Some [(js ''name'', js ''Jo''), (js ''email'', js '' a@b ''),
                   (js ''message'', js ''hi'')],
      formMsg = Some \<lparr>textContent = [], color = []\<rparr>,
      calls = []\<rparr>"

definition page_well_formed :: contact_page where
  "page_well_formed =
     \<lparr>form = Some [(js ''name'', js ''Jo''), (js ''email'', js ''jo@example.com''),
                   (js ''message'', js ''hi'')],
      formMsg = Some \<lparr>textContent = [], color = []\<rparr>,
      calls = []\<rparr>"


definition page_scrollable :: scroll_page where
  "page_scrollable = \<lparr>backToTopBtn = Some \<lparr>display = js ''none''\<rparr>, scrollY = 0\<rparr>"

definition page_fresh_theme :: theme_page where
  "page_fresh_theme =
     \<lparr>themeToggle = Some \<lparr>toggle_textContent = dark_mode_glyph, aria_pressed = None\<rparr>,
      body_classList = [],
      localStorage = Map.empty\<rparr>"

definition page_saved_dark :: theme_page where
  "page_saved_dark =
     \<lparr>themeToggle = Some \<lparr>toggle_textContent = dark_mode_glyph, aria_pressed = None\<rparr>,
      body_classList = [],
      localStorage = [js ''theme'' \<mapsto> js ''dark'']\<rparr>"

definition page_toggled_dark :: theme_page where
  "page_toggled_dark =
     \<lparr>themeToggle = Some \<lparr>toggle_textContent = light_mode_glyph, aria_pressed = Some (js ''true'')\<rparr>,
      body_classList = [js ''dark''],
      localStorage = [js ''theme'' \<mapsto> js ''dark'']\<rparr>"

definition page_skill_without_bar :: skills_page where
  "page_skill_without_bar = \<lparr>skill_bar = (\<lambda>skill. None), skill_observed = [0], timers = []\<rparr>"

definition page_reveal :: reveal_page where
  "page_reveal = \<lparr>classList = (\<lambda>el. [js ''reveal'']), observed = [0, 1]\<rparr>"


definition el_two_words :: "node list" where
  "el_two_words = [TextNode (js '' to''), TextNode (js ''  be '')]"

definition el_four_words :: "node list" where
  "el_four_words = [TextNode (js ''a b c d'')]"

definition el_blank :: "node list" where
  "el_blank = [TextNode (js ''  '')]"


section \<open>Properties of the regular expression\<close>

lemma rests_Class:
  "set (rests (Class p) s) = {t. \<exists>c. s = c # t \<and> p c}"
  by (cases s) auto

lemma rests_shorter:
  "t \<in> set (rests r s) \<Longrightarrow> length t < length s"
proof (induction r s arbitrary: t rule: rests.induct)
  case (1 p)
  then show ?case by simp
next
  case (2 p c cs)
  then show ?case by (simp split: if_splits)
next
  case (3 a b s)
  from "3.prems" obtain u where u: "u \<in> set (rests a s)" and t: "t \<in> set (rests b u)"
    by auto
  have "length t < length u"
    using u t by (rule "3.IH"(2))
  moreover have "length u < length s"
    using u by (rule "3.IH"(1))
  ultimately show ?case by simp
next
  case (4 a s)
  from "4.prems"
  have "t \<in> set (concat (map (\<lambda>t. (if length t < length s then rests (Plus a) t else []) @ [t])
                            (rests a s)))"
    by (simp only: rests.simps(4) [of a s])
  then obtain u where u: "u \<in> set (rests a s)"
    and t: "t = u \<or> (length u < length s \<and> t \<in> set (rests (Plus a) u))"
    by (auto split: if_splits)
  have us: "length u < length s"
    using u by (rule "4.IH"(1))
  from t show ?case
  proof
    assume "t = u"
    with us show ?thesis by simp
  next
    assume h: "length u < length s \<and> t \<in> set (rests (Plus a) u)"
    then have "length t < length u"
      using u "4.IH"(2) by blast
    with us show ?thesis by simp
  qed
qed

lemma rests_Plus_Class_Nil:
  "rests (Plus (Class p)) [] = []"
  by (simp add: rests.simps(4) [of "Class p" "[]"])

lemma rests_Plus_Class_Cons:
  "rests (Plus (Class p)) (c # cs) = (if p c then rests (Plus (Class p)) cs @ [cs] else [])"
  by (simp add: rests.simps(4) [of "Class p" "c # cs"])

lemma rests_Plus_Class:
  "set (rests (Plus (Class p)) s) = {t. \<exists>u. u \<noteq> [] \<and> s = u @ t \<and> (\<forall>c \<in> set u. p c)}"
proof (induction s)
  case Nil
  show ?case by (simp add: rests_Plus_Class_Nil)
next
  case (Cons c cs)
  show ?case
  proof (cases "p c")
    case False
    have "\<And>u t. u \<noteq> [] \<Longrightarrow> c # cs = u @ t \<Longrightarrow> \<not> (\<forall>x \<in> set u. p x)"
      using False by (metis Cons_eq_append_conv list.set_intros(1))
    with False show ?thesis
      by (auto simp: rests_Plus_Class_Cons)
  next
    case True
    have "{t. \<exists>u. u \<noteq> [] \<and> c # cs = u @ t \<and> (\<forall>x \<in> set u. p x)} =
          insert cs {t. \<exists>u. u \<noteq> [] \<and> cs = u @ t \<and> (\<forall>x \<in> set u. p x)}"
      (is "?L = ?R")
    proof (rule set_eqI)
      fix t
      show "t \<in> ?L \<longleftrightarrow> t \<in> ?R"
      proof
        assume "t \<in> ?L"
        then obtain u where u: "u \<noteq> []" "c # cs = u @ t" "\<forall>x \<in> set u. p x" by blast
        then obtain v where v: "u = c # v" "cs = v @ t"
          by (cases u) auto
        show "t \<in> ?R"
        proof (cases "v = []")
          case True
          with v show ?thesis by simp
        next
          case False
          with u v show ?thesis by auto
        qed
      next
        assume "t \<in> ?R"
        then consider "t = cs" | u where "u \<noteq> []" "cs = u @ t" "\<forall>x \<in> set u. p x"
          by blast
        then show "t \<in> ?L"
        proof cases
          case 1
          have "[c] \<noteq> [] \<and> c # cs = [c] @ t \<and> (\<forall>x \<in> set [c]. p x)"
            using 1 True by simp
          then show ?thesis by blast
        next
          case 2
          have "c # u \<noteq> [] \<and> c # cs = (c # u) @ t \<and> (\<forall>x \<in> set (c # u). p x)"
            using 2 True by simp
          then show ?thesis by blast
        qed
      qed
    qed
    with True Cons.IH show ?thesis
      by (simp add: rests_Plus_Class_Cons)
  qed
qed

lemma rests_Seq:
  "set (rests (Seq a b) s) = (\<Union>t \<in> set (rests a s). set (rests b t))"
  by simp

lemma isValidEmail_iff:
  "isValidEmail s \<longleftrightarrow>
     (\<exists>l d t. s = l @ [AT] @ d @ [DOT] @ t \<and> l \<noteq> [] \<and> d \<noteq> [] \<and> t \<noteq> [] \<and>
        (\<forall>c \<in> set (l @ d @ t). \<not> is_space c \<and> c \<noteq> AT))"
  (is "?L \<longleftrightarrow> ?R")
proof
  assume ?L
  then obtain r1 r2 r3 r4
    where r1: "r1 \<in> set (rests (Plus (Class not_space_at)) s)"
      and r2: "r2 \<in> set (rests (Class (\<lambda>c. c = AT)) r1)"
      and r3: "r3 \<in> set (rests (Plus (Class not_space_at)) r2)"
      and r4: "r4 \<in> set (rests (Class (\<lambda>c. c = DOT)) r3)"
      and r5: "[] \<in> set (rests (Plus (Class not_space_at)) r4)"
    unfolding isValidEmail_def test_anchored_def email_regex_def rests_Seq by blast
  from r1 obtain l where l: "l \<noteq> []" "s = l @ r1" "\<forall>c \<in> set l. not_space_at c"
    unfolding rests_Plus_Class by blast
  from r2 have r1': "r1 = AT # r2"
    unfolding rests_Class by blast
  from r3 obtain d where d: "d \<noteq> []" "r2 = d @ r3" "\<forall>c \<in> set d. not_space_at c"
    unfolding rests_Plus_Class by blast
  from r4 have r3': "r3 = DOT # r4"
    unfolding rests_Class by blast
  from r5 have t: "r4 \<noteq> []" "\<forall>c \<in> set r4. not_space_at c"
    unfolding rests_Plus_Class by auto
  have "s = l @ [AT] @ d @ [DOT] @ r4"
    using l(2) r1' d(2) r3' by simp
  moreover have "\<forall>c \<in> set (l @ d @ r4). \<not> is_space c \<and> c \<noteq> AT"
    using l(3) d(3) t(2) by (auto simp: not_space_at_def)
  ultimately show ?R
    using l(1) d(1) t(1) by blast
next
  assume ?R
  then obtain l d t
    where s: "s = l @ [AT] @ d @ [DOT] @ t"
      and ne: "l \<noteq> []" "d \<noteq> []" "t \<noteq> []"
      and cls: "\<forall>c \<in> set (l @ d @ t). \<not> is_space c \<and> c \<noteq> AT"
    by blast
  have pl: "\<forall>c \<in> set l. not_space_at c" and pd: "\<forall>c \<in> set d. not_space_at c"
    and pt: "\<forall>c \<in> set t. not_space_at c"
    using cls by (auto simp: not_space_at_def)
  have 5: "[] \<in> set (rests (Plus (Class not_space_at)) t)"
    unfolding rests_Plus_Class using ne(3) pt by auto
  have 4: "t \<in> set (rests (Class (\<lambda>c. c = DOT)) (DOT # t))"
    by simp
  have 3: "DOT # t \<in> set (rests (Plus (Class not_space_at)) (d @ DOT # t))"
    unfolding rests_Plus_Class using ne(2) pd by auto
  have 2: "d @ DOT # t \<in> set (rests (Class (\<lambda>c. c = AT)) (AT # d @ DOT # t))"
    by simp
  have 1: "AT # d @ DOT # t \<in> set (rests (Plus (Class not_space_at)) s)"
    unfolding rests_Plus_Class using ne(1) pl s by auto
  show ?L
    unfolding isValidEmail_def test_anchored_def email_regex_def rests_Seq
    using 1 2 3 4 5 by blast
qed


lemma email_shape_spec_valid:
  assumes "email_shape_spec s"
  shows "isValidEmail s"
proof -
  define l where "l = takeWhile (\<lambda>c. c \<noteq> AT) s"
  define rest where "rest = drop (length l + 1) s"
  define t where "t = rev (takeWhile (\<lambda>c. c \<noteq> DOT) (rev rest))"
  define d where "d = take (length rest - length t - 1) rest"
  have sh: "AT \<in> set s" "AT \<notin> set rest" "DOT \<in> set rest" "\<forall>c \<in> set s. \<not> is_space c"
    "l \<noteq> []" "d \<noteq> []" "t \<noteq> []"
    using assms unfolding email_shape_spec_def Let_def l_def rest_def t_def d_def by blast+
  have "dropWhile (\<lambda>c. c \<noteq> AT) s \<noteq> []"
    using sh(1) by (simp add: dropWhile_eq_Nil_conv)
  then obtain r where r: "dropWhile (\<lambda>c. c \<noteq> AT) s = AT # r"
    using hd_dropWhile [of "\<lambda>c. c \<noteq> AT" s] by (cases "dropWhile (\<lambda>c. c \<noteq> AT) s") auto
  have s1: "s = l @ AT # r"
    using takeWhile_dropWhile_id [of "\<lambda>c. c \<noteq> AT" s] r by (simp add: l_def)
  have rest_r: "rest = r"
    unfolding rest_def by (subst s1) simp
  have "dropWhile (\<lambda>c. c \<noteq> DOT) (rev rest) \<noteq> []"
    using sh(3) by (simp add: dropWhile_eq_Nil_conv)
  then obtain q where q: "dropWhile (\<lambda>c. c \<noteq> DOT) (rev rest) = DOT # q"
    using hd_dropWhile [of "\<lambda>c. c \<noteq> DOT" "rev rest"]
    by (cases "dropWhile (\<lambda>c. c \<noteq> DOT) (rev rest)") auto
  have "rev rest = rev t @ DOT # q"
    using takeWhile_dropWhile_id [of "\<lambda>c. c \<noteq> DOT" "rev rest"] q by (simp add: t_def)
  then have "rev (rev rest) = rev (rev t @ DOT # q)"
    by (rule arg_cong)
  then have r2: "rest = rev q @ DOT # t"
    by simp
  have dq: "d = rev q"
    unfolding d_def by (subst (1 2) r2) simp
  have s2: "s = l @ [AT] @ d @ [DOT] @ t"
    using s1 rest_r r2 dq by simp
  have "AT \<notin> set l"
    unfolding l_def using set_takeWhileD by fastforce
  moreover have "AT \<notin> set d" "AT \<notin> set t"
    using sh(2) r2 dq by auto
  moreover have "\<forall>c \<in> set (l @ d @ t). \<not> is_space c"
    using sh(4) s2 by auto
  ultimately have "\<forall>c \<in> set (l @ d @ t). \<not> is_space c \<and> c \<noteq> AT"
    by auto
  with s2 sh(5,6,7) show ?thesis
    unfolding isValidEmail_iff by blast
qed



section \<open>Properties of the contact form\<close>

lemma dropWhile_all_space:
  "(\<forall>x \<in> set (dropWhile is_space v). is_space x) \<longleftrightarrow> (\<forall>c \<in> set v. is_space c)"
proof
  assume a: "\<forall>x \<in> set (dropWhile is_space v). is_space x"
  have "dropWhile is_space v = []"
  proof (rule ccontr)
    assume ne: "dropWhile is_space v \<noteq> []"
    then have "\<not> is_space (hd (dropWhile is_space v))"
      by (rule hd_dropWhile)
    moreover have "hd (dropWhile is_space v) \<in> set (dropWhile is_space v)"
      using ne by (rule hd_in_set)
    ultimately show False using a by blast
  qed
  then show "\<forall>c \<in> set v. is_space c"
    by (simp only: dropWhile_eq_Nil_conv)
next
  assume a: "\<forall>c \<in> set v. is_space c"
  show "\<forall>x \<in> set (dropWhile is_space v). is_space x"
  proof
    fix x
    assume "x \<in> set (dropWhile is_space v)"
    then have "x \<in> set v"
      by (rule set_dropWhileD)
    with a show "is_space x" ..
  qed
qed

lemma trim_eq_Nil_iff:
  "trim v = [] \<longleftrightarrow> (\<forall>c \<in> set v. is_space c)"
proof -
  have "trim v = [] \<longleftrightarrow> (\<forall>x \<in> set (dropWhile is_space v). is_space x)"
    unfolding trim_def rev_is_Nil_conv dropWhile_eq_Nil_conv set_rev ..
  then show ?thesis
    by (simp only: dropWhile_all_space)
qed

lemma falsy_field_value:
  "falsy (field_value f n) \<longleftrightarrow> (\<forall>v. map_of f n = Some v \<longrightarrow> trim v = [])"
  by (cases "map_of f n") (simp_all add: falsy_def field_value_def)

lemma submit_event_missing:
  assumes "form p = Some f" and "formMsg p = Some m"
    and "falsy (field_value f (js ''name'')) \<or> falsy (field_value f (js ''email'')) \<or>
         falsy (field_value f (js ''message''))"
  shows "formMsg (submit_event p) =
           Some (m\<lparr>textContent := js ''Please fill all fields!'', color := js ''red''\<rparr>)"
    and "form (submit_event p) = form p"
    and "calls (submit_event p) =
           calls p @ [PreventDefault, ShowFormMessage (js ''Please fill all fields!'') (js ''red'')]"
  using assms
  by (simp_all add: submit_event_def submit_handler_def showFormMessage_def log_call_def Let_def)

lemma submit_event_invalid:
  assumes "form p = Some f" and "formMsg p = Some m"
    and "\<not> falsy (field_value f (js ''name''))" and "\<not> falsy (field_value f (js ''email''))"
    and "\<not> falsy (field_value f (js ''message''))"
    and "\<not> isValidEmail (ToString (field_value f (js ''email'')))"
  shows "formMsg (submit_event p) =
           Some (m\<lparr>textContent := js ''Please enter a valid email address!'', color := js ''red''\<rparr>)"
    and "form (submit_event p) = form p"
    and "calls (submit_event p) =
           calls p @ [PreventDefault, IsValidEmail (ToString (field_value f (js ''email''))),
                      ShowFormMessage (js ''Please enter a valid email address!'') (js ''red'')]"
  using assms
  by (simp_all add: submit_event_def submit_handler_def showFormMessage_def log_call_def Let_def)

lemma submit_event_success:
  assumes "form p = Some f" and "formMsg p = Some m"
    and "\<not> falsy (field_value f (js ''name''))" and "\<not> falsy (field_value f (js ''email''))"
    and "\<not> falsy (field_value f (js ''message''))"
    and "isValidEmail (ToString (field_value f (js ''email'')))"
  shows "formMsg (submit_event p) =
           Some (m\<lparr>textContent := js ''Message sent successfully!'', color := js ''green''\<rparr>)"
    and "form (submit_event p) = Some (map (\<lambda>(n, v). (n, [])) f)"
    and "calls (submit_event p) =
           calls p @ [PreventDefault, IsValidEmail (ToString (field_value f (js ''email''))),
                      ShowFormMessage (js ''Message sent successfully!'') (js ''green''), Reset]"
  using assms
  by (simp_all add: submit_event_def submit_handler_def showFormMessage_def form_reset_def
      log_call_def Let_def)

lemma field_value_Some:
  "map_of f n = Some v \<Longrightarrow> field_value f n = Some (trim v)"
  by (simp add: field_value_def)

lemma not_falsy_field:
  "map_of f n = Some v \<Longrightarrow> trim v \<noteq> [] \<Longrightarrow> \<not> falsy (field_value f n)"
  by (simp add: field_value_def falsy_def)

lemma message_texts_differ:
  "js ''Please fill all fields!'' \<noteq> js ''Message sent successfully!''"
  "js ''Please enter a valid email address!'' \<noteq> js ''Message sent successfully!''"
  "js ''red'' \<noteq> js ''green''"
  by (simp_all add: js_def)


section \<open>Claims about the contact form\<close>

text \<open>
  Claim C1, as the specification states it, makes \<open>isValidEmail\<close> accept exactly the
  strings of the shape \<open>email_shape_spec\<close>, with at least one character after the final
  dot. The string \<open>a@b.c.\<close> ends with its final dot and is accepted.
\<close>

theorem C1_email_shape_counterexample:
  "isValidEmail (js ''a@b.c.'') \<and> \<not> email_shape_spec (js ''a@b.c.'')"
  by code_simp

text \<open>
  Claim C1, amended: \<open>isValidEmail\<close> accepts a string if and only if it is a non-empty
  local part, an \<open>@\<close>, a non-empty domain part, a dot and a non-empty last part, none of
  the three parts holding whitespace or an \<open>@\<close>; the domain and the last part may hold
  dots themselves, so the dot need not be the final one. Every string of the shape the
  specification words is accepted; \<open>a@b\<close>, \<open>a.com\<close> and \<open>a @b.com\<close> are rejected. A
  submission whose three trimmed fields are non-empty and whose trimmed email is
  rejected shows the red "invalid email" message and leaves the form as it is.
\<close>

theorem C1_email_shape:
  "(isValidEmail s \<longleftrightarrow>
      (\<exists>l d t. s = l @ [AT] @ d @ [DOT] @ t \<and> l \<noteq> [] \<and> d \<noteq> [] \<and> t \<noteq> [] \<and>
         (\<forall>c \<in> set (l @ d @ t). \<not> is_space c \<and> c \<noteq> AT))) \<and>
   (email_shape_spec s \<longrightarrow> isValidEmail s) \<and>
   \<not> isValidEmail (js ''a@b'') \<and> \<not> isValidEmail (js ''a.com'') \<and>
   \<not> isValidEmail (js ''a @b.com'') \<and>
   (form p = Some f \<and> formMsg p = Some m \<and>
    map_of f (js ''name'') = Some n \<and> trim n \<noteq> [] \<and>
    map_of f (js ''email'') = Some e \<and> trim e \<noteq> [] \<and>
    map_of f (js ''message'') = Some g \<and> trim g \<noteq> [] \<and>
    \<not> isValidEmail (trim e) \<longrightarrow>
    formMsg (submit_event p) =
      Some (m\<lparr>textContent := js ''Please enter a valid email address!'', color := js ''red''\<rparr>) \<and>
    form (submit_event p) = form p)"
proof -
  have 1: "isValidEmail s \<longleftrightarrow>
      (\<exists>l d t. s = l @ [AT] @ d @ [DOT] @ t \<and> l \<noteq> [] \<and> d \<noteq> [] \<and> t \<noteq> [] \<and>
         (\<forall>c \<in> set (l @ d @ t). \<not> is_space c \<and> c \<noteq> AT))"
    by (rule isValidEmail_iff)
  have 2: "email_shape_spec s \<longrightarrow> isValidEmail s"
    using email_shape_spec_valid by blast
  have 3: "\<not> isValidEmail (js ''a@b'')" by code_simp
  have 4: "\<not> isValidEmail (js ''a.com'')" by code_simp
  have 5: "\<not> isValidEmail (js ''a @b.com'')" by code_simp
  have 6: "formMsg (submit_event p) =
      Some (m\<lparr>textContent := js ''Please enter a valid email address!'', color := js ''red''\<rparr>) \<and>
    form (submit_event p) = form p"
    if h: "form p = Some f \<and> formMsg p = Some m \<and>
    map_of f (js ''name'') = Some n \<and> trim n \<noteq> [] \<and>
    map_of f (js ''email'') = Some e \<and> trim e \<noteq> [] \<and>
    map_of f (js ''message'') = Some g \<and> trim g \<noteq> [] \<and>
    \<not> isValidEmail (trim e)"
  proof -
    have a: "\<not> falsy (field_value f (js ''name''))" "\<not> falsy (field_value f (js ''email''))"
      "\<not> falsy (field_value f (js ''message''))"
      using h by (simp_all add: not_falsy_field)
    have b: "\<not> isValidEmail (ToString (field_value f (js ''email'')))"
      using h by (simp add: field_value_Some ToString_def)
    from h have fp: "form p = Some f" and mp: "formMsg p = Some m" by simp_all
    show ?thesis
      using submit_event_invalid(1,2) [OF fp mp a b] by simp
  qed
  from 1 2 3 4 5 6 show ?thesis by blast
qed

theorem C1_email_shape_witness:
  "isValidEmail (js ''jo@example.com'') \<and>
   formMsg (submit_event page_invalid_email) =
     Some \<lparr>textContent = js ''Please enter a valid email address!'', color = js ''red''\<rparr>"
proof -
  let ?f = "[(js ''name'', js ''Jo''), (js ''email'', js '' a@b ''), (js ''message'', js ''hi'')]"
  let ?m = "\<lparr>textContent = [], color = []\<rparr>"
  note c = C1_email_shape [of "js ''jo@example.com''" page_invalid_email ?f ?m
      "js ''Jo''" "js '' a@b ''" "js ''hi''"]
  have shape: "email_shape_spec (js ''jo@example.com'')" by code_simp
  have h: "form page_invalid_email = Some ?f \<and> formMsg page_invalid_email = Some ?m \<and>
    map_of ?f (js ''name'') = Some (js ''Jo'') \<and> trim (js ''Jo'') \<noteq> [] \<and>
    map_of ?f (js ''email'') = Some (js '' a@b '') \<and> trim (js '' a@b '') \<noteq> [] \<and>
    map_of ?f (js ''message'') = Some (js ''hi'') \<and> trim (js ''hi'') \<noteq> [] \<and>
    \<not> isValidEmail (trim (js '' a@b ''))"
    by code_simp
  from c shape have "isValidEmail (js ''jo@example.com'')" by blast
  moreover from c h have "formMsg (submit_event page_invalid_email) =
      Some (?m\<lparr>textContent := js ''Please enter a valid email address!'', color := js ''red''\<rparr>)"
    by blast
  ultimately show ?thesis by simp
qed

text \<open>
  Claim C2: when at least one of the fields name, email and message is absent or empty
  after trimming, a submission shows the red "fill all fields" message, not the success
  message, and the handler makes two calls only: \<open>preventDefault\<close> and that
  \<open>showFormMessage\<close>; \<open>isValidEmail\<close> is not called.
\<close>

theorem C2_missing_field_message:
  assumes "form p = Some f" and "formMsg p = Some m"
    and "(\<forall>v. map_of f (js ''name'') = Some v \<longrightarrow> trim v = []) \<or>
         (\<forall>v. map_of f (js ''email'') = Some v \<longrightarrow> trim v = []) \<or>
         (\<forall>v. map_of f (js ''message'') = Some v \<longrightarrow> trim v = [])"
  shows "formMsg (submit_event p) =
           Some (m\<lparr>textContent := js ''Please fill all fields!'', color := js ''red''\<rparr>) \<and>
         formMsg (submit_event p) \<noteq>
           Some (m\<lparr>textContent := js ''Message sent successfully!'', color := js ''green''\<rparr>) \<and>
         calls (submit_event p) =
           calls p @ [PreventDefault, ShowFormMessage (js ''Please fill all fields!'') (js ''red'')] \<and>
         (\<forall>e. IsValidEmail e \<notin> set (drop (length (calls p)) (calls (submit_event p)))) \<and>
         (\<forall>c. ShowFormMessage (js ''Message sent successfully!'') c
                \<notin> set (drop (length (calls p)) (calls (submit_event p))))"
proof -
  have miss: "falsy (field_value f (js ''name'')) \<or> falsy (field_value f (js ''email'')) \<or>
              falsy (field_value f (js ''message''))"
    using assms(3) by (simp only: falsy_field_value)
  note r = submit_event_missing [OF assms(1,2) miss]
  have 1: "formMsg (submit_event p) =
           Some (m\<lparr>textContent := js ''Please fill all fields!'', color := js ''red''\<rparr>)"
    by (rule r(1))
  have "textContent (m\<lparr>textContent := js ''Please fill all fields!'', color := js ''red''\<rparr>) \<noteq>
        textContent (m\<lparr>textContent := js ''Message sent successfully!'', color := js ''green''\<rparr>)"
    using message_texts_differ(1) by simp
  then have 2: "formMsg (submit_event p) \<noteq>
           Some (m\<lparr>textContent := js ''Message sent successfully!'', color := js ''green''\<rparr>)"
    unfolding 1 by (metis option.inject)
  have 3: "calls (submit_event p) =
           calls p @ [PreventDefault, ShowFormMessage (js ''Please fill all fields!'') (js ''red'')]"
    by (rule r(3))
  have 4: "\<forall>e. IsValidEmail e \<notin> set (drop (length (calls p)) (calls (submit_event p)))"
    unfolding 3 by simp
  have 5: "\<forall>c. ShowFormMessage (js ''Message sent successfully!'') c
                \<notin> set (drop (length (calls p)) (calls (submit_event p)))"
    unfolding 3 using message_texts_differ(1) by simp
  from 1 2 3 4 5 show ?thesis by blast
qed

theorem C2_missing_field_message_witness:
  "formMsg (submit_event page_blank_message) =
     Some \<lparr>textContent = js ''Please fill all fields!'', color = js ''red''\<rparr> \<and>
   calls (submit_event page_blank_message) =
     [PreventDefault, ShowFormMessage (js ''Please fill all fields!'') (js ''red'')]"
proof -
  let ?f = "[(js ''name'', js ''Jo''), (js ''email'', js ''jo@example.com''),
             (js ''message'', js ''   '')]"
  have f: "form page_blank_message = Some ?f"
    and m: "formMsg page_blank_message = Some \<lparr>textContent = [], color = []\<rparr>"
    and c: "calls page_blank_message = []"
    by (simp_all add: page_blank_message_def)
  have v: "map_of ?f (js ''message'') = Some (js ''   '')"
    by (simp add: js_def)
  have b: "trim (js ''   '') = []"
    by (simp add: trim_def js_def is_space_def)
  have h: "\<forall>v. map_of ?f (js ''message'') = Some v \<longrightarrow> trim v = []"
    unfolding v using b by simp
  show ?thesis
    using C2_missing_field_message [OF f m disjI2 [OF disjI2 [OF h]]] c by simp
qed

text \<open>
  Claim C3: when the three trimmed fields are non-empty and the trimmed email passes
  \<open>isValidEmail\<close>, a submission shows the green success message and leaves every
  control of the form empty.
\<close>

theorem C3_success_clears_form:
  assumes "form p = Some f" and "formMsg p = Some m"
    and "map_of f (js ''name'') = Some n" and "trim n \<noteq> []"
    and "map_of f (js ''email'') = Some e" and "trim e \<noteq> []"
    and "map_of f (js ''message'') = Some g" and "trim g \<noteq> []"
    and "isValidEmail (trim e)"
  shows "formMsg (submit_event p) =
           Some (m\<lparr>textContent := js ''Message sent successfully!'', color := js ''green''\<rparr>) \<and>
         (\<exists>f'. form (submit_event p) = Some f' \<and> map fst f' = map fst f \<and>
               (\<forall>c \<in> set f'. snd c = []))"
proof -
  have a: "\<not> falsy (field_value f (js ''name''))" "\<not> falsy (field_value f (js ''email''))"
    "\<not> falsy (field_value f (js ''message''))"
    using assms by (simp_all add: not_falsy_field)
  have b: "isValidEmail (ToString (field_value f (js ''email'')))"
    using assms by (simp add: field_value_Some ToString_def)
  note r = submit_event_success [OF assms(1,2) a b]
  have "map fst (map (\<lambda>(n, v). (n, [])) f) = map fst f"
    by (induction f) auto
  moreover have "\<forall>c \<in> set (map (\<lambda>(n, v). (n, [])) f). snd c = []"
    by auto
  ultimately show ?thesis
    using r(1,2) by blast
qed

theorem C3_success_clears_form_witness:
  "formMsg (submit_event page_well_formed) =
     Some \<lparr>textContent = js ''Message sent successfully!'', color = js ''green''\<rparr> \<and>
   (\<exists>f'. form (submit_event page_well_formed) = Some f' \<and>
         map fst f' = [js ''name'', js ''email'', js ''message''] \<and>
         (\<forall>c \<in> set f'. snd c = []))"
proof -
  let ?f = "[(js ''name'', js ''Jo''), (js ''email'', js ''jo@example.com''),
             (js ''message'', js ''hi'')]"
  let ?m = "\<lparr>textContent = [], color = []\<rparr>"
  have 1: "form page_well_formed = Some ?f" and 2: "formMsg page_well_formed = Some ?m"
    by (simp_all add: page_well_formed_def)
  have 3: "map_of ?f (js ''name'') = Some (js ''Jo'')" by code_simp
  have 4: "trim (js ''Jo'') \<noteq> []" by code_simp
  have 5: "map_of ?f (js ''email'') = Some (js ''jo@example.com'')" by code_simp
  have 6: "trim (js ''jo@example.com'') \<noteq> []" by code_simp
  have 7: "map_of ?f (js ''message'') = Some (js ''hi'')" by code_simp
  have 8: "trim (js ''hi'') \<noteq> []" by code_simp
  have 9: "isValidEmail (trim (js ''jo@example.com''))" by code_simp
  show ?thesis
    using C3_success_clears_form [OF 1 2 3 4 5 6 7 8 9] by simp
qed

text \<open>
  Claim C10: a submission that fails validation (a field that is empty, or an email that
  is rejected) leaves the form unchanged; \<open>form.reset()\<close> is called if and only if the
  validation succeeds, and then every control is empty.
\<close>

theorem C10_reset_only_on_success:
  assumes "form p = Some f" and "formMsg p = Some m"
  shows "(falsy (field_value f (js ''name'')) \<or> falsy (field_value f (js ''email'')) \<or>
          falsy (field_value f (js ''message'')) \<or>
          \<not> isValidEmail (ToString (field_value f (js ''email''))) \<longrightarrow>
          form (submit_event p) = form p) \<and>
         (Reset \<in> set (drop (length (calls p)) (calls (submit_event p))) \<longleftrightarrow>
          \<not> falsy (field_value f (js ''name'')) \<and> \<not> falsy (field_value f (js ''email'')) \<and>
          \<not> falsy (field_value f (js ''message'')) \<and>
          isValidEmail (ToString (field_value f (js ''email'')))) \<and>
         (Reset \<in> set (drop (length (calls p)) (calls (submit_event p))) \<longrightarrow>
          form (submit_event p) = Some (map (\<lambda>(n, v). (n, [])) f))"
proof (cases "falsy (field_value f (js ''name'')) \<or> falsy (field_value f (js ''email'')) \<or>
          falsy (field_value f (js ''message''))")
  case True
  note r = submit_event_missing [OF assms True]
  have "Reset \<notin> set (drop (length (calls p)) (calls (submit_event p)))"
    unfolding r(3) by simp
  with True r(2) show ?thesis by blast
next
  case False
  then have a: "\<not> falsy (field_value f (js ''name''))" "\<not> falsy (field_value f (js ''email''))"
    "\<not> falsy (field_value f (js ''message''))"
    by simp_all
  show ?thesis
  proof (cases "isValidEmail (ToString (field_value f (js ''email'')))")
    case True
    note r = submit_event_success [OF assms a True]
    have "Reset \<in> set (drop (length (calls p)) (calls (submit_event p)))"
      unfolding r(3) by simp
    with a True r(2) show ?thesis by blast
  next
    case False
    note r = submit_event_invalid [OF assms a False]
    have "Reset \<notin> set (drop (length (calls p)) (calls (submit_event p)))"
      unfolding r(3) by simp
    with False r(2) show ?thesis by blast
  qed
qed

theorem C10_reset_only_on_success_witness:
  "form (submit_event page_invalid_email) = form page_invalid_email \<and>
   Reset \<notin> set (calls (submit_event page_invalid_email)) \<and>
   Reset \<in> set (calls (submit_event page_well_formed)) \<and>
   form (submit_event page_well_formed) =
     Some [(js ''name'', []), (js ''email'', []), (js ''message'', [])]"
proof -
  let ?f = "[(js ''name'', js ''Jo''), (js ''email'', js '' a@b ''), (js ''message'', js ''hi'')]"
  let ?g = "[(js ''name'', js ''Jo''), (js ''email'', js ''jo@example.com''),
             (js ''message'', js ''hi'')]"
  let ?m = "\<lparr>textContent = [], color = []\<rparr>"
  have 1: "form page_invalid_email = Some ?f" and 2: "formMsg page_invalid_email = Some ?m"
    and 3: "calls page_invalid_email = []"
    by (simp_all add: page_invalid_email_def)
  have 4: "form page_well_formed = Some ?g" and 5: "formMsg page_well_formed = Some ?m"
    and 6: "calls page_well_formed = []"
    by (simp_all add: page_well_formed_def)
  have bad: "\<not> isValidEmail (ToString (field_value ?f (js ''email'')))" by code_simp
  have good: "\<not> falsy (field_value ?g (js ''name'')) \<and> \<not> falsy (field_value ?g (js ''email'')) \<and>
          \<not> falsy (field_value ?g (js ''message'')) \<and>
          isValidEmail (ToString (field_value ?g (js ''email'')))" by code_simp
  have clr: "map (\<lambda>(n, v). (n, [])) ?g = [(js ''name'', []), (js ''email'', []), (js ''message'', [])]"
    by simp
  from C10_reset_only_on_success [OF 1 2] bad 3
  have "form (submit_event page_invalid_email) = form page_invalid_email \<and>
        Reset \<notin> set (calls (submit_event page_invalid_email))"
    by simp
  moreover from C10_reset_only_on_success [OF 4 5] good 6 clr
  have "Reset \<in> set (calls (submit_event page_well_formed)) \<and>
        form (submit_event page_well_formed) =
          Some [(js ''name'', []), (js ''email'', []), (js ''message'', [])]"
    by simp
  ultimately show ?thesis by blast
qed


section \<open>Claims about the theme switch\<close>

lemma theme_click_fields:
  assumes "themeToggle p = Some t"
  shows "body_classList (theme_click p) = fst (classList_toggle (body_classList p) (js ''dark''))"
    and "localStorage (theme_click p) = (localStorage p)(js ''theme'' \<mapsto>
           (if snd (classList_toggle (body_classList p) (js ''dark'')) then js ''dark'' else js ''light''))"
    and "themeToggle (theme_click p) =
           Some (t\<lparr>toggle_textContent :=
                    (if snd (classList_toggle (body_classList p) (js ''dark''))
                     then light_mode_glyph else dark_mode_glyph),
                  aria_pressed := Some (bool_string (snd (classList_toggle (body_classList p) (js ''dark''))))\<rparr>)"
  using assms
  by (simp_all add: theme_click_def theme_click_handler_def split: prod.split)

text \<open>
  Claim C5, as the specification states it, has two clicks on the toggle bring the stored
  preference back to the value stored before. On a page whose store has no \<open>theme\<close>
  key and whose body is not dark, two clicks leave the value \<open>light\<close> stored.
\<close>

theorem C5_theme_toggle_twice_counterexample:
  "body_classList (theme_click (theme_click page_fresh_theme)) = body_classList page_fresh_theme \<and>
   localStorage (theme_click (theme_click page_fresh_theme)) (js ''theme'') = Some (js ''light'') \<and>
   localStorage page_fresh_theme (js ''theme'') = None \<and>
   localStorage (theme_click (theme_click page_fresh_theme)) (js ''theme'') \<noteq>
     localStorage page_fresh_theme (js ''theme'')"
  by (simp add: page_fresh_theme_def theme_click_def theme_click_handler_def classList_toggle_def)

text \<open>
  Claim C5, amended: two clicks on the toggle bring the body back to the classes it had,
  with or without \<open>dark\<close> as before, and leave stored the value that names the body's
  original state (\<open>dark\<close> with the class, \<open>light\<close> without it); the store is as it was
  before whenever that value was the one stored.
\<close>

theorem C5_theme_toggle_twice:
  assumes "themeToggle p = Some t"
  shows "set (body_classList (theme_click (theme_click p))) = set (body_classList p) \<and>
         (classList_contains (body_classList (theme_click (theme_click p))) (js ''dark'') \<longleftrightarrow>
          classList_contains (body_classList p) (js ''dark'')) \<and>
         localStorage (theme_click (theme_click p)) (js ''theme'') =
           Some (if classList_contains (body_classList p) (js ''dark'')
                 then js ''dark'' else js ''light'') \<and>
         (localStorage p (js ''theme'') =
            Some (if classList_contains (body_classList p) (js ''dark'')
                  then js ''dark'' else js ''light'') \<longrightarrow>
          localStorage (theme_click (theme_click p)) = localStorage p)"
proof -
  obtain t' where t': "themeToggle (theme_click p) = Some t'"
    using theme_click_fields(3) [OF assms] by blast
  note a = theme_click_fields(1,2) [OF assms]
  note b = theme_click_fields(1,2) [OF t']
  show ?thesis
  proof (cases "js ''dark'' \<in> set (body_classList p)")
    case True
    have 1: "body_classList (theme_click p) = removeAll (js ''dark'') (body_classList p)"
      and 2: "localStorage (theme_click p) = (localStorage p)(js ''theme'' \<mapsto> js ''light'')"
      using True a by (simp_all add: classList_toggle_def)
    have 3: "body_classList (theme_click (theme_click p)) =
               removeAll (js ''dark'') (body_classList p) @ [js ''dark'']"
      and 4: "localStorage (theme_click (theme_click p)) = (localStorage p)(js ''theme'' \<mapsto> js ''dark'')"
      using b 1 2 by (simp_all add: classList_toggle_def)
    have "set (body_classList (theme_click (theme_click p))) = set (body_classList p)"
      unfolding 3 using True by auto
    with True 4 show ?thesis
      by (auto simp: classList_contains_def)
  next
    case False
    have 1: "body_classList (theme_click p) = body_classList p @ [js ''dark'']"
      and 2: "localStorage (theme_click p) = (localStorage p)(js ''theme'' \<mapsto> js ''dark'')"
      using False a by (simp_all add: classList_toggle_def)
    have 3: "body_classList (theme_click (theme_click p)) = body_classList p"
      and 4: "localStorage (theme_click (theme_click p)) = (localStorage p)(js ''theme'' \<mapsto> js ''light'')"
      using b 1 2 False by (simp_all add: classList_toggle_def)
    from False 3 4 show ?thesis
      by (auto simp: classList_contains_def)
  qed
qed

theorem C5_theme_toggle_twice_witness:
  "set (body_classList (theme_click (theme_click page_toggled_dark))) = {js ''dark''} \<and>
   localStorage (theme_click (theme_click page_toggled_dark)) = localStorage page_toggled_dark"
proof -
  have 1: "themeToggle page_toggled_dark =
      Some \<lparr>toggle_textContent = light_mode_glyph, aria_pressed = Some (js ''true'')\<rparr>"
    and 2: "body_classList page_toggled_dark = [js ''dark'']"
    and 3: "localStorage page_toggled_dark (js ''theme'') = Some (js ''dark'')"
    by (simp_all add: page_toggled_dark_def)
  from C5_theme_toggle_twice [OF 1] 2 3 show ?thesis
    by (simp add: classList_contains_def)
qed

text \<open>
  Claim C7: at load, with the toggle on the page, a stored preference \<open>dark\<close> puts the
  class \<open>dark\<close> on the body, the light-mode glyph on the toggle and \<open>aria-pressed\<close> to
  \<open>true\<close>; any other stored value, or none, sets \<open>aria-pressed\<close> to \<open>false\<close> and leaves
  the body's classes and the toggle's icon as they are.
\<close>

theorem C7_theme_load:
  assumes "themeToggle p = Some t"
  shows "(localStorage p (js ''theme'') = Some (js ''dark'') \<longrightarrow>
            classList_contains (body_classList (theme_load p)) (js ''dark'') \<and>
            themeToggle (theme_load p) =
              Some (t\<lparr>toggle_textContent := light_mode_glyph, aria_pressed := Some (js ''true'')\<rparr>)) \<and>
         (localStorage p (js ''theme'') \<noteq> Some (js ''dark'') \<longrightarrow>
            themeToggle (theme_load p) = Some (t\<lparr>aria_pressed := Some (js ''false'')\<rparr>) \<and>
            body_classList (theme_load p) = body_classList p) \<and>
         localStorage (theme_load p) = localStorage p"
  using assms
  by (simp add: theme_load_def classList_contains_def classList_add_def)

theorem C7_theme_load_witness:
  "classList_contains (body_classList (theme_load page_saved_dark)) (js ''dark'') \<and>
   themeToggle (theme_load page_saved_dark) =
     Some \<lparr>toggle_textContent = light_mode_glyph, aria_pressed = Some (js ''true'')\<rparr> \<and>
   themeToggle (theme_load page_fresh_theme) =
     Some \<lparr>toggle_textContent = dark_mode_glyph, aria_pressed = Some (js ''false'')\<rparr> \<and>
   body_classList (theme_load page_fresh_theme) = []"
proof -
  have 1: "themeToggle page_saved_dark =
             Some \<lparr>toggle_textContent = dark_mode_glyph, aria_pressed = None\<rparr>"
    and 2: "localStorage page_saved_dark (js ''theme'') = Some (js ''dark'')"
    by (simp_all add: page_saved_dark_def)
  have 3: "themeToggle page_fresh_theme =
             Some \<lparr>toggle_textContent = dark_mode_glyph, aria_pressed = None\<rparr>"
    and 4: "localStorage page_fresh_theme (js ''theme'') \<noteq> Some (js ''dark'')"
    and 5: "body_classList page_fresh_theme = []"
    by (simp_all add: page_fresh_theme_def)
  from C7_theme_load [OF 1] 2 C7_theme_load [OF 3] 4 5 show ?thesis
    by simp
qed


section \<open>Claims about the back-to-top control\<close>

lemma block_not_none: "js ''block'' \<noteq> js ''none''"
  by (simp add: js_def)

text \<open>
  Claim C8: after a scroll event at offset \<open>y\<close> the button's display is \<open>block\<close>
  exactly when \<open>y\<close> exceeds 300 and \<open>none\<close> otherwise; 301 shows it, 300 hides it, and
  the display does not depend on the page before the event.
\<close>

theorem C8_back_to_top_threshold:
  assumes "backToTopBtn p = Some b"
  shows "backToTopBtn (scroll_event y p) =
           Some (b\<lparr>display := (if y > 300 then js ''block'' else js ''none'')\<rparr>) \<and>
         (map_option display (backToTopBtn (scroll_event y p)) = Some (js ''block'') \<longleftrightarrow> y > 300) \<and>
         (map_option display (backToTopBtn (scroll_event y p)) = Some (js ''none'') \<longleftrightarrow> y \<le> 300) \<and>
         map_option display (backToTopBtn (scroll_event 301 p)) = Some (js ''block'') \<and>
         map_option display (backToTopBtn (scroll_event 300 p)) = Some (js ''none'') \<and>
         (\<forall>q b'. backToTopBtn q = Some b' \<longrightarrow>
            map_option display (backToTopBtn (scroll_event y q)) =
            map_option display (backToTopBtn (scroll_event y p)))"
proof -
  have ev: "backToTopBtn (scroll_event z q) =
           Some (b'\<lparr>display := (if z > 300 then js ''block'' else js ''none'')\<rparr>)"
    if "backToTopBtn q = Some b'" for z q b'
    using that by (simp add: scroll_event_def scroll_handler_def)
  have d: "map_option display (backToTopBtn (scroll_event z q)) =
           Some (if z > 300 then js ''block'' else js ''none'')"
    if "backToTopBtn q = Some b'" for z q b'
    using ev [OF that] by simp
  have 1: "backToTopBtn (scroll_event y p) =
           Some (b\<lparr>display := (if y > 300 then js ''block'' else js ''none'')\<rparr>)"
    by (rule ev [OF assms])
  have 2: "map_option display (backToTopBtn (scroll_event y p)) = Some (js ''block'') \<longleftrightarrow> y > 300"
    unfolding d [OF assms] using block_not_none by simp
  have 3: "map_option display (backToTopBtn (scroll_event y p)) = Some (js ''none'') \<longleftrightarrow> y \<le> 300"
    unfolding d [OF assms] using block_not_none by auto
  have 4: "map_option display (backToTopBtn (scroll_event 301 p)) = Some (js ''block'')"
    unfolding d [OF assms] by simp
  have 5: "map_option display (backToTopBtn (scroll_event 300 p)) = Some (js ''none'')"
    unfolding d [OF assms] by simp
  have 6: "\<forall>q b'. backToTopBtn q = Some b' \<longrightarrow>
            map_option display (backToTopBtn (scroll_event y q)) =
            map_option display (backToTopBtn (scroll_event y p))"
  proof (intro allI impI)
    fix q :: scroll_page and b' :: button_el
    assume "backToTopBtn q = Some b'"
    then show "map_option display (backToTopBtn (scroll_event y q)) =
            map_option display (backToTopBtn (scroll_event y p))"
      by (simp only: d d [OF assms])
  qed
  from 1 2 3 4 5 6 show ?thesis by blast
qed

theorem C8_back_to_top_threshold_witness:
  "backToTopBtn (scroll_event 301 page_scrollable) = Some \<lparr>display = js ''block''\<rparr> \<and>
   backToTopBtn (scroll_event 300 (scroll_event 301 page_scrollable)) = Some \<lparr>display = js ''none''\<rparr>"
proof -
  have 1: "backToTopBtn page_scrollable = Some \<lparr>display = js ''none''\<rparr>"
    by (simp add: page_scrollable_def)
  have 2: "backToTopBtn (scroll_event 301 page_scrollable) = Some \<lparr>display = js ''block''\<rparr>"
    using C8_back_to_top_threshold [OF 1, of 301] by simp
  have 3: "backToTopBtn (scroll_event 300 (scroll_event 301 page_scrollable)) =
           Some \<lparr>display = js ''none''\<rparr>"
    using C8_back_to_top_threshold [OF 2, of 300] by simp
  from 2 3 show ?thesis by blast
qed


section \<open>Claims about the scroll reveal\<close>

lemma classList_reveal_entry:
  "classList (reveal_entry e p) el =
     (if isIntersecting e \<and> target e = el
      then classList_add (classList p el) (js ''active'') else classList p el)"
  by (simp add: reveal_entry_def)

lemma observed_reveal_entry:
  "observed (reveal_entry e p) =
     (if isIntersecting e then removeAll (target e) (observed p) else observed p)"
  by (simp add: reveal_entry_def unobserve_def)

lemma is_active_classList_add:
  "classList_contains (classList_add cl (js ''active'')) (js ''active'')"
  by (simp add: classList_contains_def classList_add_def)

lemma is_active_reveal_entry:
  "is_active p el \<Longrightarrow> is_active (reveal_entry e p) el"
  by (simp add: is_active_def classList_reveal_entry classList_contains_def classList_add_def)

lemma is_active_reveal_callback:
  "is_active p el \<Longrightarrow> is_active (reveal_callback b p) el"
  unfolding reveal_callback_def
  by (induction b arbitrary: p) (simp_all add: is_active_reveal_entry)

lemma reveal_callback_hit:
  assumes "\<exists>e \<in> set b. target e = el \<and> isIntersecting e"
  shows "is_active (reveal_callback b p) el \<and> el \<notin> set (observed (reveal_callback b p))"
  using assms unfolding reveal_callback_def
proof (induction b arbitrary: p)
  case Nil
  then show ?case by simp
next
  case (Cons e b)
  show ?case
  proof (cases "\<exists>e \<in> set b. target e = el \<and> isIntersecting e")
    case True
    then show ?thesis
      using Cons.IH [of "reveal_entry e p"] by simp
  next
    case False
    with Cons.prems have e: "target e = el" "isIntersecting e"
      by auto
    have a: "is_active (reveal_entry e p) el"
      using e by (simp add: is_active_def classList_reveal_entry is_active_classList_add)
    have o: "el \<notin> set (observed (reveal_entry e p))"
      using e by (simp add: observed_reveal_entry)
    have "is_active (fold reveal_entry b q) el" if "is_active q el" for q
      using that is_active_reveal_callback [of q el b] by (simp add: reveal_callback_def)
    moreover have "el \<notin> set (observed (fold reveal_entry b q))"
      if "el \<notin> set (observed q)" for q
      using that by (induction b arbitrary: q) (simp_all add: observed_reveal_entry)
    ultimately show ?thesis
      using a o by simp
  qed
qed

lemma reveal_callback_miss:
  assumes "\<not> (\<exists>e \<in> set b. target e = el \<and> isIntersecting e)"
  shows "classList (reveal_callback b p) el = classList p el \<and>
         (el \<in> set (observed (reveal_callback b p)) \<longleftrightarrow> el \<in> set (observed p))"
  using assms unfolding reveal_callback_def
proof (induction b arbitrary: p)
  case Nil
  then show ?case by simp
next
  case (Cons e b)
  from Cons.prems have e: "\<not> (isIntersecting e \<and> target e = el)"
    and b: "\<not> (\<exists>e \<in> set b. target e = el \<and> isIntersecting e)"
    by auto
  have "classList (reveal_entry e p) el = classList p el"
    using e by (auto simp: classList_reveal_entry)
  moreover have "el \<in> set (observed (reveal_entry e p)) \<longleftrightarrow> el \<in> set (observed p)"
    using e by (auto simp: observed_reveal_entry)
  ultimately show ?case
    using Cons.IH [OF b, of "reveal_entry e p"] by simp
qed

lemma reveal_callback_unobserved:
  "el \<notin> set (observed p) \<Longrightarrow> el \<notin> set (observed (reveal_callback b p))"
  unfolding reveal_callback_def
  by (induction b arbitrary: p) (simp_all add: observed_reveal_entry)

lemma activations_active:
  "is_active p el \<Longrightarrow> activations el (p # reveal_states p bs) = 0"
proof (induction bs arbitrary: p)
  case Nil
  then show ?case by simp
next
  case (Cons b bs)
  have "is_active (reveal_callback b p) el"
    using Cons.prems by (rule is_active_reveal_callback)
  then show ?case
    using Cons.IH [of "reveal_callback b p"] Cons.prems by simp
qed

lemma activations_le_1:
  "activations el (p # reveal_states p bs) \<le> 1"
proof (induction bs arbitrary: p)
  case Nil
  show ?case by simp
next
  case (Cons b bs)
  show ?case
  proof (cases "is_active (reveal_callback b p) el")
    case True
    then show ?thesis
      using activations_active [of "reveal_callback b p" el bs] by simp
  next
    case False
    then show ?thesis
      using Cons.IH [of "reveal_callback b p"] by simp
  qed
qed

lemma deactivations_0:
  "deactivations el (p # reveal_states p bs) = 0"
proof (induction bs arbitrary: p)
  case Nil
  show ?case by simp
next
  case (Cons b bs)
  show ?case
    using Cons.IH [of "reveal_callback b p"] is_active_reveal_callback [of p el b] by simp
qed

text \<open>
  Claim C4: along any sequence of notifications an element goes from inactive to active
  at most once and never from active to inactive. A notification with an intersecting
  entry for the element leaves it active and no longer watched; one without such an
  entry leaves its classes and its watching as they are; an element that is not watched
  stays so.
\<close>

theorem C4_reveal_once:
  "activations el (p # reveal_states p batches) \<le> 1 \<and>
   deactivations el (p # reveal_states p batches) = 0 \<and>
   ((\<exists>e \<in> set b. target e = el \<and> isIntersecting e) \<longrightarrow>
      is_active (reveal_callback b p) el \<and> el \<notin> set (observed (reveal_callback b p))) \<and>
   (\<not> (\<exists>e \<in> set b. target e = el \<and> isIntersecting e) \<longrightarrow>
      classList (reveal_callback b p) el = classList p el \<and>
      (el \<in> set (observed (reveal_callback b p)) \<longleftrightarrow> el \<in> set (observed p))) \<and>
   (el \<notin> set (observed p) \<longrightarrow> el \<notin> set (observed (reveal_callback b p)))"
  using activations_le_1 [of el p batches] deactivations_0 [of el p batches]
    reveal_callback_hit [of b el p] reveal_callback_miss [of b el p]
    reveal_callback_unobserved [of el p b]
  by blast

theorem C4_reveal_once_witness:
  "activations 0 (page_reveal # reveal_states page_reveal
      [[\<lparr>target = 0, isIntersecting = False\<rparr>, \<lparr>target = 1, isIntersecting = True\<rparr>],
       [\<lparr>target = 0, isIntersecting = True\<rparr>],
       [\<lparr>target = 0, isIntersecting = False\<rparr>, \<lparr>target = 0, isIntersecting = True\<rparr>]]) = 1 \<and>
   is_active (reveal_callback [\<lparr>target = 0, isIntersecting = True\<rparr>] page_reveal) 0 \<and>
   0 \<notin> set (observed (reveal_callback [\<lparr>target = 0, isIntersecting = True\<rparr>] page_reveal)) \<and>
   classList (reveal_callback [\<lparr>target = 1, isIntersecting = True\<rparr>] page_reveal) 0 = [js ''reveal'']"
proof -
  let ?bs = "[[\<lparr>target = 0, isIntersecting = False\<rparr>, \<lparr>target = 1, isIntersecting = True\<rparr>],
       [\<lparr>target = 0, isIntersecting = True\<rparr>],
       [\<lparr>target = (0::nat), isIntersecting = False\<rparr>, \<lparr>target = 0, isIntersecting = True\<rparr>]]"
  have pos: "activations 0 (page_reveal # reveal_states page_reveal ?bs) \<ge> 1"
    by code_simp
  have hit: "\<exists>e \<in> set [\<lparr>target = 0, isIntersecting = True\<rparr>]. target e = 0 \<and> isIntersecting e"
    by simp
  have miss: "\<not> (\<exists>e \<in> set [\<lparr>target = 1, isIntersecting = True\<rparr>]. target e = (0::nat) \<and> isIntersecting e)"
    by simp
  have cl: "classList page_reveal 0 = [js ''reveal'']"
    by (simp add: page_reveal_def)
  from C4_reveal_once [of 0 page_reveal ?bs "[\<lparr>target = 0, isIntersecting = True\<rparr>]"] pos hit
  have "activations 0 (page_reveal # reveal_states page_reveal ?bs) = 1 \<and>
   is_active (reveal_callback [\<lparr>target = 0, isIntersecting = True\<rparr>] page_reveal) 0 \<and>
   0 \<notin> set (observed (reveal_callback [\<lparr>target = 0, isIntersecting = True\<rparr>] page_reveal))"
    by (simp only: le_antisym simp_thms)
  moreover from C4_reveal_once [of 0 page_reveal ?bs "[\<lparr>target = 1, isIntersecting = True\<rparr>]"] miss cl
  have "classList (reveal_callback [\<lparr>target = 1, isIntersecting = True\<rparr>] page_reveal) 0 = [js ''reveal'']"
    by (simp only: simp_thms)
  ultimately show ?thesis by blast
qed


section \<open>Claims about the skill bars\<close>

text \<open>
  Claim C6 says that no handler fails when an expected element is absent. The callback
  of the skill observer reads \<open>bar.dataset\<close> without a check: for a skill item without
  an inner \<open>.bar span\<close> it throws a TypeError on the first intersecting entry.
\<close>

theorem C6_skill_callback_throws:
  "skill_callback [\<lparr>target = 0, isIntersecting = True\<rparr>] page_skill_without_bar = Inl TypeError"
  by (simp add: skill_callback_def skill_entry_def page_skill_without_bar_def)


section \<open>Properties of the numbers\<close>

lemma one_tenth_nearest:
  "\<bar>double_value one_tenth - 1 / 10\<bar> < 1 / 2 ^ 57"
  by (simp add: double_value_def one_tenth_def)

lemma bit_length_bounds:
  "0 < n \<Longrightarrow> 2 ^ (bit_length n - 1) \<le> n \<and> n < 2 ^ bit_length n"
proof (induction n rule: bit_length.induct)
  case (1 n)
  from "1.prems" have bl: "bit_length n = Suc (bit_length (n div 2))"
    by (simp add: bit_length.simps [of n])
  show ?case
  proof (cases "n div 2 \<le> 0")
    case True
    with "1.prems" have "n = 1"
      by presburger
    moreover have "bit_length (1 div 2) = 0"
      by (simp add: bit_length.simps [of 0])
    ultimately show ?thesis
      using bl by simp
  next
    case False
    then have pos: "0 < n div 2" by simp
    from "1.prems" have n0: "\<not> n \<le> 0" by simp
    note ih = "1.IH" [OF n0 pos]
    have b1: "bit_length (n div 2) = Suc (bit_length (n div 2) - 1)"
      using pos by (simp add: bit_length.simps [of "n div 2"])
    have "2 ^ (bit_length n - 1) = 2 * (2::int) ^ (bit_length (n div 2) - 1)"
      unfolding bl using b1 by (metis diff_Suc_1 power_Suc)
    also have "\<dots> \<le> 2 * (n div 2)"
      using ih by simp
    also have "\<dots> \<le> n"
      by presburger
    finally have lo: "2 ^ (bit_length n - 1) \<le> n" .
    have "n div 2 + 1 \<le> 2 ^ bit_length (n div 2)"
      using ih by simp
    then have "2 * (n div 2 + 1) \<le> 2 ^ bit_length n"
      unfolding bl by simp
    moreover have "n < 2 * (n div 2 + 1)"
      by presburger
    ultimately have hi: "n < 2 ^ bit_length n"
      by simp
    from lo hi show ?thesis ..
  qed
qed

lemma round_shift_0:
  "round_shift m 0 = m"
  by (simp add: round_shift_def)


lemma round_shift_error:
  "2 * \<bar>round_shift m s * 2 ^ s - m\<bar> \<le> 2 ^ s"
proof -
  define q where "q = m div 2 ^ s"
  define r where "r = m mod 2 ^ s"
  have m: "m = q * 2 ^ s + r"
    unfolding q_def r_def by (rule div_mult_mod_eq [symmetric])
  have r: "0 \<le> r" "r < 2 ^ s"
    by (simp_all add: r_def)
  show ?thesis
  proof (cases "2 * r > 2 ^ s \<or> (2 * r = 2 ^ s \<and> odd q)")
    case True
    then have rs: "round_shift m s = q + 1"
      by (simp add: round_shift_def q_def r_def Let_def)
    have "(q + 1) * 2 ^ s - m = 2 ^ s - r"
      by (simp add: m algebra_simps)
    moreover have "2 * r \<ge> 2 ^ s"
      using True by auto
    ultimately show ?thesis
      using r unfolding rs by simp 
  next
    case False
    then have rs: "round_shift m s = q"
      by (simp add: round_shift_def q_def r_def Let_def)
    have "q * 2 ^ s - m = - r"
      by (simp add: m)
    moreover have "2 * r \<le> 2 ^ s"
      using False by auto
    ultimately show ?thesis
      using r unfolding rs by simp
  qed
qed

lemma to_double_error:
  assumes "0 \<le> m"
  shows "\<bar>double_value (to_double m e) - real_of_int m * 2 powi e\<bar>
           \<le> real_of_int m * 2 powi e / 2 ^ 53"
proof -
  define s where "s = bit_length m - 53"
  define q where "q = round_shift m s"
  have p: "(0::real) < 2 powi e"
    by simp
  have dv: "double_value (to_double m e) = real_of_int (q * 2 ^ s) * 2 powi e"
    by (simp add: to_double_def double_value_def Let_def s_def [symmetric] q_def [symmetric]
        power_int_add)
  have err: "\<bar>real_of_int (q * 2 ^ s) - real_of_int m\<bar> \<le> real_of_int m / 2 ^ 53"
  proof (cases "s = 0")
    case True
    then have "q * 2 ^ s = m"
      by (simp add: q_def round_shift_0)
    with assms show ?thesis by simp
  next
    case False
    then have bl: "bit_length m = s + 53"
      by (simp add: s_def)
    then have "0 < m"
      using assms by (cases "m = 0") (simp_all add: bit_length.simps [of 0])
    then have "(2::int) ^ (bit_length m - 1) \<le> m"
      using bit_length_bounds by blast
    then have lo: "(2::int) ^ s * 2 ^ 52 \<le> m"
      unfolding bl by (simp add: power_add)
    have "2 * \<bar>q * 2 ^ s - m\<bar> \<le> 2 ^ s"
      unfolding q_def by (rule round_shift_error)
    then have "2 * \<bar>q * 2 ^ s - m\<bar> * 2 ^ 52 \<le> 2 ^ s * 2 ^ 52"
      by simp
    with lo have "\<bar>q * 2 ^ s - m\<bar> * 2 ^ 53 \<le> m"
      by simp
    then have "real_of_int (\<bar>q * 2 ^ s - m\<bar> * 2 ^ 53) \<le> real_of_int m"
      by (rule of_int_le_iff [THEN iffD2])
    then have "\<bar>real_of_int (q * 2 ^ s) - real_of_int m\<bar> * 2 ^ 53 \<le> real_of_int m"
      by simp
    then show ?thesis
      by (simp add: pos_le_divide_eq)
  qed
  have "\<bar>double_value (to_double m e) - real_of_int m * 2 powi e\<bar> =
        \<bar>real_of_int (q * 2 ^ s) - real_of_int m\<bar> * 2 powi e"
    unfolding dv using p by (simp add: left_diff_distrib [symmetric] abs_mult)
  also have "\<dots> \<le> real_of_int m / 2 ^ 53 * 2 powi e"
    using err p by (simp add: mult_right_mono)
  finally show ?thesis
    by simp
qed

lemma times_one_tenth_error:
  "\<bar>double_value (times_double (int i, 0) one_tenth) - real i / 10\<bar> \<le> real i / 10 / 2 ^ 52"
proof -
  let ?M = "3602879701896397 :: int"
  have td: "times_double (int i, 0) one_tenth = to_double (int i * ?M) (- 55)"
    by (simp add: times_double_def one_tenth_def)
  have ex: "real_of_int (int i * ?M) * 2 powi (- 55) = real i * 3602879701896397 / 2 ^ 55"
    by simp
  have "\<bar>double_value (to_double (int i * ?M) (- 55)) - real_of_int (int i * ?M) * 2 powi (- 55)\<bar>
          \<le> real_of_int (int i * ?M) * 2 powi (- 55) / 2 ^ 53"
    by (rule to_double_error) simp
  then have a: "\<bar>double_value (times_double (int i, 0) one_tenth)
                  - real i * 3602879701896397 / 2 ^ 55\<bar>
                \<le> real i * 3602879701896397 / 2 ^ 55 / 2 ^ 53"
    unfolding td ex .
  have b: "real i * 3602879701896397 / 2 ^ 55 - real i / 10 = real i / 10 / 2 ^ 54"
    by simp
  have c: "real i * 3602879701896397 / 2 ^ 55 / 2 ^ 53 + real i / 10 / 2 ^ 54 \<le> real i / 10 / 2 ^ 52"
    by simp
  define x where "x = double_value (times_double (int i, 0) one_tenth)"
  define y where "y = real i * 3602879701896397 / 2 ^ 55"
  define z where "z = real i / 10"
  have a': "\<bar>x - y\<bar> \<le> y / 2 ^ 53"
    using a unfolding x_def y_def .
  have b': "y - z = z / 2 ^ 54"
    using b unfolding y_def z_def .
  have c': "y / 2 ^ 53 + z / 2 ^ 54 \<le> z / 2 ^ 52"
    using c unfolding y_def z_def .
  have "\<bar>x - z\<bar> \<le> \<bar>x - y\<bar> + \<bar>y - z\<bar>"
    by arith
  also have "\<dots> \<le> y / 2 ^ 53 + \<bar>z / 2 ^ 54\<bar>"
    using a' unfolding b' by simp
  also have "\<bar>z / 2 ^ 54\<bar> = z / 2 ^ 54"
    by (simp add: z_def)
  also note c'
  finally show ?thesis
    unfolding x_def z_def by simp
qed


section \<open>Claims about the word by word reveal\<close>

lemma rests_Plus_Class_reject:
  "\<not> p c \<Longrightarrow> rests (Plus (Class p)) (c # cs) = []"
  by (simp add: rests_Plus_Class_Cons)

lemma rests_Plus_Class_greedy:
  "p c \<Longrightarrow> \<exists>ts. rests (Plus (Class p)) (c # cs) = dropWhile p cs # ts"
proof (induction cs arbitrary: c)
  case Nil
  then show ?case
    by (simp add: rests_Plus_Class_Cons rests_Plus_Class_Nil)
next
  case (Cons c' cs)
  show ?case
  proof (cases "p c'")
    case True
    from Cons.IH [OF True] obtain ts
      where "rests (Plus (Class p)) (c' # cs) = dropWhile p cs # ts" ..
    then show ?thesis
      using Cons.prems True by (simp add: rests_Plus_Class_Cons [of p c])
  next
    case False
    then show ?thesis
      using Cons.prems by (simp add: rests_Plus_Class_Cons)
  qed
qed

lemma split_from_space:
  assumes "is_space c"
  shows "split_from spaces_regex piece (c # cs) =
           rev piece # split_from spaces_regex [] (dropWhile is_space cs)"
proof -
  obtain ts where "rests (Plus (Class is_space)) (c # cs) = dropWhile is_space cs # ts"
    using rests_Plus_Class_greedy [of is_space c cs] assms by blast
  moreover have "length (dropWhile is_space cs) < length (c # cs)"
    using length_dropWhile_le [of is_space cs] by simp
  ultimately show ?thesis
    by (simp add: spaces_regex_def split_from.simps(2))
qed

lemma split_from_nonspace:
  assumes "\<not> is_space c"
  shows "split_from spaces_regex piece (c # cs) = split_from spaces_regex (c # piece) cs"
  using rests_Plus_Class_reject [of is_space c cs, OF assms]
  by (simp add: spaces_regex_def split_from.simps(2))

lemma last_dropWhile:
  "dropWhile P xs \<noteq> [] \<Longrightarrow> last (dropWhile P xs) = last xs"
  by (induction xs) auto

lemma rev_trailing_split:
  "xs = rev (dropWhile P (rev xs)) @ rev (takeWhile P (rev xs))"
proof -
  have "rev xs = takeWhile P (rev xs) @ dropWhile P (rev xs)"
    by simp
  then have "rev (rev xs) = rev (takeWhile P (rev xs) @ dropWhile P (rev xs))"
    by (rule arg_cong)
  then show ?thesis
    by (simp only: rev_rev_ident rev_append)
qed

lemma words_from_dropWhile:
  "words_from [] (dropWhile is_space s) = words_from [] s"
  by (induction s) simp_all

lemma words_from_spaces:
  "\<forall>c \<in> set t. is_space c \<Longrightarrow> words_from cur t = words_from cur []"
proof (induction t arbitrary: cur)
  case Nil
  show ?case by simp
next
  case (Cons c t)
  then have "words_from [] t = []"
    by simp
  with Cons.prems show ?case by simp
qed

lemma words_from_trailing:
  "\<forall>c \<in> set t. is_space c \<Longrightarrow> words_from cur (s @ t) = words_from cur s"
proof (induction s arbitrary: cur)
  case Nil
  then show ?case
    using words_from_spaces [of t cur] by simp
next
  case (Cons c s)
  then show ?case by simp
qed

lemma words_spec_trim:
  "words_spec (trim s) = words_spec s"
proof -
  let ?d = "dropWhile is_space s"
  let ?k = "rev (dropWhile is_space (rev ?d))"
  let ?t = "rev (takeWhile is_space (rev ?d))"
  have t: "\<forall>c \<in> set ?t. is_space c"
    by (auto dest: set_takeWhileD)
  have "words_from [] ?d = words_from [] (?k @ ?t)"
    using rev_trailing_split [of ?d is_space] by simp
  also have "\<dots> = words_from [] ?k"
    using t by (rule words_from_trailing)
  finally have "words_from [] ?k = words_from [] s"
    by (simp only: words_from_dropWhile)
  then show ?thesis
    by (simp only: words_spec_def trim_def)
qed

lemma split_from_words_from:
  assumes "cur \<noteq> [] \<or> (s \<noteq> [] \<and> \<not> is_space (hd s))"
    and "s = [] \<or> \<not> is_space (last s)"
  shows "split_from spaces_regex cur s = words_from cur s"
  using assms
proof (induction "length s" arbitrary: s cur rule: less_induct)
  case less
  show ?case
  proof (cases s)
    case Nil
    with less.prems show ?thesis by simp
  next
    case (Cons c cs)
    show ?thesis
    proof (cases "is_space c")
      case True
      with less.prems(1) Cons have cur: "cur \<noteq> []" by simp
      from less.prems(2) Cons True have cs: "cs \<noteq> []" "\<not> is_space (last cs)"
        by (auto split: if_splits)
      let ?d = "dropWhile is_space cs"
      have dne: "?d \<noteq> []"
        using cs last_in_set [of cs] by (auto simp: dropWhile_eq_Nil_conv)
      have hd: "\<not> is_space (hd ?d)"
        using dne by (rule hd_dropWhile)
      have "last ?d = last cs"
        using dne by (rule last_dropWhile)
      with cs have last: "\<not> is_space (last ?d)" by simp
      have len: "length ?d < length s"
        using Cons length_dropWhile_le [of is_space cs] by simp
      have "split_from spaces_regex [] ?d = words_from [] ?d"
        using len dne hd last by (intro less.hyps) simp_all
      then have "rev cur # split_from spaces_regex [] ?d = rev cur # words_from [] cs"
        by (simp only: words_from_dropWhile)
      moreover have "split_from spaces_regex cur (c # cs) = rev cur # split_from spaces_regex [] ?d"
        using True by (rule split_from_space)
      moreover have "words_from cur (c # cs) = rev cur # words_from [] cs"
        using True cur by simp
      ultimately show ?thesis
        using Cons by simp
    next
      case False
      have l: "cs = [] \<or> \<not> is_space (last cs)"
        using less.prems(2) Cons by (auto split: if_splits)
      have len: "length cs < length s"
        using Cons by simp
      have "split_from spaces_regex (c # cur) cs = words_from (c # cur) cs"
        using len l by (intro less.hyps) simp_all
      moreover have "split_from spaces_regex cur (c # cs) = split_from spaces_regex (c # cur) cs"
        using False by (rule split_from_nonspace)
      moreover have "words_from cur (c # cs) = words_from (c # cur) cs"
        using False by simp
      ultimately show ?thesis
        using Cons by simp
    qed
  qed
qed

lemma trim_ends:
  assumes "\<exists>c \<in> set s. \<not> is_space c"
  shows "trim s \<noteq> []" and "\<not> is_space (hd (trim s))" and "\<not> is_space (last (trim s))"
proof -
  let ?d = "dropWhile is_space s"
  let ?e = "dropWhile is_space (rev ?d)"
  show ne: "trim s \<noteq> []"
  proof
    assume "trim s = []"
    then have "\<forall>c \<in> set s. is_space c"
      by (simp only: trim_eq_Nil_iff)
    with assms show False by blast
  qed
  then have e: "?e \<noteq> []"
    by (simp only: trim_def rev_is_Nil_conv not_False_eq_True)
  have d: "?d \<noteq> []"
  proof
    assume "?d = []"
    then have "?e = []" by (simp only: rev.simps(1) dropWhile.simps(1))
    with e show False ..
  qed
  have "last (trim s) = hd ?e"
    using e by (simp add: trim_def last_rev)
  then show "\<not> is_space (last (trim s))"
    using hd_dropWhile [OF e] by simp
  have "last ?e = last (rev ?d)"
    using e by (rule last_dropWhile)
  then have "hd (trim s) = hd ?d"
    using e d by (simp add: trim_def hd_rev last_rev)
  then show "\<not> is_space (hd (trim s))"
    using hd_dropWhile [OF d] by simp
qed

lemma split_trim_words:
  assumes "\<exists>c \<in> set s. \<not> is_space c"
  shows "split spaces_regex (trim s) = words_spec s"
proof -
  note t = trim_ends [OF assms]
  have "split spaces_regex (trim s) = split_from spaces_regex [] (trim s)"
    using t(1) by (simp add: split_def)
  also have "\<dots> = words_from [] (trim s)"
    using t by (intro split_from_words_from) simp_all
  also have "\<dots> = words_spec s"
    using words_spec_trim [of s] by (simp add: words_spec_def)
  finally show ?thesis .
qed

lemma fold_append_spans:
  "fold (\<lambda>(index, word) el. el @ [SpanNode (word_span index word)]) xs acc =
     acc @ map (\<lambda>(index, word). SpanNode (word_span index word)) xs"
  by (induction xs arbitrary: acc) (simp_all split: prod.split)

lemma animate_words_split:
  "animate_words el =
     map (\<lambda>(index, word). SpanNode (word_span index word))
       (List.enumerate 0 (split spaces_regex (trim (el_textContent el))))"
  by (simp add: animate_words_def Let_def fold_append_spans)

lemma words_from_sane:
  "\<forall>c \<in> set cur. \<not> is_space c \<Longrightarrow> w \<in> set (words_from cur s) \<Longrightarrow>
     w \<noteq> [] \<and> (\<forall>c \<in> set w. \<not> is_space c)"
proof (induction s arbitrary: cur)
  case Nil
  from Nil.prems(2) have "cur \<noteq> []" and "w = rev cur"
    by (simp_all split: if_splits)
  with Nil.prems(1) show ?case by simp
next
  case (Cons c s)
  show ?case
  proof (cases "is_space c")
    case False
    with Cons.prems(1) have "\<forall>x \<in> set (c # cur). \<not> is_space x"
      by simp
    moreover from Cons.prems(2) False have "w \<in> set (words_from (c # cur) s)"
      by simp
    ultimately show ?thesis
      by (rule Cons.IH)
  next
    case True
    have empty: "\<forall>x \<in> set ([] :: jsstring). \<not> is_space x"
      by simp
    from Cons.prems(2) True
    have "w \<in> set (words_from [] s) \<or> (cur \<noteq> [] \<and> w = rev cur)"
      by (auto split: if_splits)
    then show ?thesis
    proof
      assume "w \<in> set (words_from [] s)"
      with empty show ?thesis
        by (rule Cons.IH)
    next
      assume "cur \<noteq> [] \<and> w = rev cur"
      with Cons.prems(1) show ?thesis by simp
    qed
  qed
qed

lemma concat_words_from:
  "concat (words_from cur s) = rev cur @ filter (\<lambda>c. \<not> is_space c) s"
  by (induction s arbitrary: cur) simp_all

lemma node_text_spans:
  "map node_text (map (\<lambda>(index, word). SpanNode (word_span index word)) xs) = map snd xs"
  by (induction xs) (simp_all add: word_span_def split: prod.split)

text \<open>
  Claim C9, as the specification states it, gives every flagged element exactly one span
  per word of its text, the span at position \<open>i\<close> with a delay of \<open>i\<close> times 0.1
  seconds. An element whose text is only whitespace has no word, and is rebuilt with
  one span, of empty text. And the delay is a product of doubles: the fourth span of an
  element of four words has the delay 0.30000000000000004, which is not three tenths.
\<close>

theorem C9_word_spans_counterexample:
  "animate_words el_blank = [SpanNode (word_span 0 [])] \<and>
   words_spec (el_textContent el_blank) = [] \<and>
   length (animate_words el_blank) \<noteq> length (words_spec (el_textContent el_blank)) \<and>
   words_spec (el_textContent el_four_words) = [js ''a'', js ''b'', js ''c'', js ''d''] \<and>
   animate_words el_four_words ! 3 =
     SpanNode \<lparr>className = js ''word'', span_textContent = js ''d'',
               marginRight = js ''0.4rem'',
               animationDelay = 5404319552844596 / 2 ^ 54\<rparr> \<and>
   (5404319552844596 / 2 ^ 54 :: real) \<noteq> 3 * (1 / 10)"
proof -
  have b: "split spaces_regex (trim (el_textContent el_blank)) = [[]]"
    by code_simp
  have 1: "animate_words el_blank = [SpanNode (word_span 0 [])]"
    unfolding animate_words_split b by simp
  have 2: "words_spec (el_textContent el_blank) = []"
    by code_simp
  have 3: "length (animate_words el_blank) \<noteq> length (words_spec (el_textContent el_blank))"
    unfolding 1 2 by simp
  have 4: "words_spec (el_textContent el_four_words) = [js ''a'', js ''b'', js ''c'', js ''d'']"
    by code_simp
  have f: "split spaces_regex (trim (el_textContent el_four_words)) =
             [js ''a'', js ''b'', js ''c'', js ''d'']"
    by code_simp
  have t: "times_double (3, 0) one_tenth = (5404319552844596, - 54)"
    by code_simp
  have v: "double_value (5404319552844596, - 54) = 5404319552844596 / 2 ^ 54"
    by (simp add: double_value_def)
  have "animate_words el_four_words ! 3 = SpanNode (word_span 3 (js ''d''))"
    unfolding animate_words_split f by (simp add: nth_enumerate_eq numeral_3_eq_3)
  then have 5: "animate_words el_four_words ! 3 =
     SpanNode \<lparr>className = js ''word'', span_textContent = js ''d'',
               marginRight = js ''0.4rem'',
               animationDelay = 5404319552844596 / 2 ^ 54\<rparr>"
    by (simp only: word_span_def of_nat_numeral t v)
  have 6: "(5404319552844596 / 2 ^ 54 :: real) \<noteq> 3 * (1 / 10)"
    by simp
  from 1 2 3 4 5 6 show ?thesis by blast
qed

text \<open>
  Claim C9, amended: for every flagged element whose text holds at least one character
  that is not whitespace, the element is rebuilt to contain exactly one span per word
  of its text, the words being the maximal runs without whitespace, in order; the span
  at position \<open>i\<close> has the class \<open>word\<close>, the word as its text, the right margin
  \<open>0.4rem\<close> and as its animation delay, in seconds, the number \<open>i * 0.1\<close> of
  JavaScript: the product of the doubles \<open>i\<close> and 0.1, which is 0 for the first word
  and differs from \<open>i\<close> tenths by at most \<open>i\<close> tenths over \<open>2\<close> to the 52. The
  whitespace of the original text is gone: the new text is the old one without it.
\<close>

theorem C9_word_spans:
  assumes "\<exists>c \<in> set (el_textContent el). \<not> is_space c"
  shows "animate_words el =
           map (\<lambda>(index, word). SpanNode (word_span index word))
             (List.enumerate 0 (words_spec (el_textContent el))) \<and>
         length (animate_words el) = length (words_spec (el_textContent el)) \<and>
         (\<forall>i < length (words_spec (el_textContent el)).
            animate_words el ! i =
              SpanNode \<lparr>className = js ''word'',
                        span_textContent = words_spec (el_textContent el) ! i,
                        marginRight = js ''0.4rem'',
                        animationDelay = double_value (times_double (int i, 0) one_tenth)\<rparr>) \<and>
         double_value (times_double (int 0, 0) one_tenth) = 0 \<and>
         (\<forall>i. \<bar>double_value (times_double (int i, 0) one_tenth) - real i / 10\<bar>
                \<le> real i / 10 / 2 ^ 52) \<and>
         (\<forall>w \<in> set (words_spec (el_textContent el)). w \<noteq> [] \<and> (\<forall>c \<in> set w. \<not> is_space c)) \<and>
         el_textContent (animate_words el) = filter (\<lambda>c. \<not> is_space c) (el_textContent el)"
proof -
  let ?ws = "words_spec (el_textContent el)"
  let ?f = "\<lambda>(index, word). SpanNode (word_span index word)"
  have 1: "animate_words el = map ?f (List.enumerate 0 ?ws)"
    using split_trim_words [OF assms] by (simp only: animate_words_split)
  have 2: "length (animate_words el) = length ?ws"
    unfolding 1 by simp
  have 3: "\<forall>i < length ?ws. animate_words el ! i =
              SpanNode \<lparr>className = js ''word'', span_textContent = ?ws ! i,
                        marginRight = js ''0.4rem'',
                        animationDelay = double_value (times_double (int i, 0) one_tenth)\<rparr>"
    unfolding 1 by (simp add: nth_enumerate_eq word_span_def)
  have z: "times_double (int 0, 0) one_tenth = (0, - 55)"
    by code_simp
  have 4: "double_value (times_double (int 0, 0) one_tenth) = 0"
    unfolding z by (simp add: double_value_def)
  have 5: "\<forall>i. \<bar>double_value (times_double (int i, 0) one_tenth) - real i / 10\<bar>
                \<le> real i / 10 / 2 ^ 52"
    using times_one_tenth_error by blast
  have 6: "\<forall>w \<in> set ?ws. w \<noteq> [] \<and> (\<forall>c \<in> set w. \<not> is_space c)"
    using words_from_sane [of "[]" _ "el_textContent el"] by (simp add: words_spec_def)
  have "map node_text (map ?f (List.enumerate 0 ?ws)) = ?ws"
    by (simp only: node_text_spans map_snd_enumerate)
  then have "el_textContent (animate_words el) = concat ?ws"
    unfolding 1 el_textContent_def by simp
  then have 7: "el_textContent (animate_words el) = filter (\<lambda>c. \<not> is_space c) (el_textContent el)"
    by (simp add: words_spec_def concat_words_from)
  from 1 2 3 4 5 6 7 show ?thesis by blast
qed

theorem C9_word_spans_witness:
  "animate_words el_two_words =
     [SpanNode \<lparr>className = js ''word'', span_textContent = js ''to'',
                marginRight = js ''0.4rem'', animationDelay = 0\<rparr>,
      SpanNode \<lparr>className = js ''word'', span_textContent = js ''be'',
                marginRight = js ''0.4rem'', animationDelay = 3602879701896397 / 2 ^ 55\<rparr>]"
proof -
  have h: "\<exists>c \<in> set (el_textContent el_two_words). \<not> is_space c"
    by code_simp
  have w: "words_spec (el_textContent el_two_words) = [js ''to'', js ''be'']"
    by code_simp
  have e: "List.enumerate 0 [js ''to'', js ''be''] = [(0, js ''to''), (1, js ''be'')]"
    by (simp add: enumerate_eq_zip upt_rec)
  have t0: "times_double (int 0, 0) one_tenth = (0, - 55)"
    and t1: "times_double (int 1, 0) one_tenth = (3602879701896397, - 55)"
    by code_simp+
  have v0: "double_value (0, - 55) = 0"
    and v1: "double_value (3602879701896397, - 55) = 3602879701896397 / 2 ^ 55"
    by (simp_all add: double_value_def)
  from C9_word_spans [OF h]
  have "animate_words el_two_words =
          [SpanNode (word_span 0 (js ''to'')), SpanNode (word_span 1 (js ''be''))]"
    unfolding w e by simp
  then show ?thesis
    by (simp only: word_span_def t0 t1 v0 v1)
qed

end
